theory Spec2Isabelle
  imports Complex_Main
begin

section \<open>Common base: signals, errors and the helpers of SignalProcessor\<close>

text \<open>
  A signal is a \<open>std::vector<double>\<close>. Samples are modelled as real numbers, so rounding
  is outside the model; infinities and NaN enter in the two sections on doubles further down
  (the parameter checks of the constructors and the Savitzky-Golay coefficients).
  \<open>size_t\<close> and \<open>int\<close> indices are unbounded naturals and integers (no signal here is long
  enough to wrap them).
\<close>

type_synonym Signal = "real list"

text \<open>
  \<open>Invalid_argument\<close> is \<open>std::invalid_argument\<close> (the configuration error),
  \<open>Runtime_error\<close> is \<open>std::runtime_error\<close> (the singular matrix), and
  \<open>Out_of_bounds\<close> marks a read of a vector outside its size, which C++ leaves undefined.
\<close>

datatype error = Invalid_argument | Runtime_error | Out_of_bounds

text \<open>\<open>SignalProcessor::median\<close>: empty gives 0, otherwise sort and take the middle.\<close>

definition median :: "real list \<Rightarrow> real" where
  "median values =
     (if values = [] then 0
      else let values = sort values; size = length values in
        if size mod 2 = 0 then (values ! (size div 2 - 1) + values ! (size div 2)) / 2
        else values ! (size div 2))"

text \<open>\<open>SignalProcessor::mad\<close>: the median of the absolute deviations from \<open>med\<close>.\<close>

definition mad :: "real list \<Rightarrow> real \<Rightarrow> real" where
  "mad values med = median (map (\<lambda>v. \<bar>v - med\<bar>) values)"

text \<open>\<open>SignalProcessor::linearInterpolate\<close>.\<close>

definition linearInterpolate :: "real \<Rightarrow> real \<Rightarrow> real \<Rightarrow> real \<Rightarrow> real \<Rightarrow> real" where
  "linearInterpolate x1 y1 x2 y2 x =
     (if \<bar>x2 - x1\<bar> < 1 / 10 ^ 10 then y1
      else y1 + (y2 - y1) * (x - x1) / (x2 - x1))"

section \<open>Quality metrics\<close>

text \<open>\<open>calculateSNR\<close>: the guard on sizes returns 0.0; the sentinel 100.0 is for tiny noise power.\<close>

definition calculateSNR :: "Signal \<Rightarrow> Signal \<Rightarrow> real" where
  "calculateSNR clean noisy =
     (if length clean \<noteq> length noisy \<or> clean = [] then 0
      else
        let signal_power = fold (\<lambda>i s. s + clean ! i * clean ! i) [0..<length clean] 0;
            noise_power = fold (\<lambda>i s. s + (noisy ! i - clean ! i) * (noisy ! i - clean ! i))
                            [0..<length clean] 0;
            signal_power = signal_power / real (length clean);
            noise_power = noise_power / real (length clean)
        in if noise_power < 1 / 10 ^ 10 then 100
           else 10 * log 10 (signal_power / noise_power))"

text \<open>\<open>calculateMSE\<close>.\<close>

definition calculateMSE :: "Signal \<Rightarrow> Signal \<Rightarrow> real" where
  "calculateMSE original processed =
     (if length original \<noteq> length processed \<or> original = [] then 0
      else
        let mse = fold (\<lambda>i s. s + (original ! i - processed ! i) * (original ! i - processed ! i))
                    [0..<length original] 0
        in mse / real (length original))"

text \<open>\<open>calculateCorrelation\<close>; \<open>std::accumulate\<close> is a left fold from 0.0.\<close>

definition calculateCorrelation :: "Signal \<Rightarrow> Signal \<Rightarrow> real" where
  "calculateCorrelation signal1 signal2 =
     (if length signal1 \<noteq> length signal2 \<or> signal1 = [] then 0
      else
        let mean1 = fold (\<lambda>v s. s + v) signal1 0 / real (length signal1);
            mean2 = fold (\<lambda>v s. s + v) signal2 0 / real (length signal2);
            numerator = fold (\<lambda>i s. s + (signal1 ! i - mean1) * (signal2 ! i - mean2))
                          [0..<length signal1] 0;
            sum_sq1 = fold (\<lambda>i s. s + (signal1 ! i - mean1) * (signal1 ! i - mean1))
                          [0..<length signal1] 0;
            sum_sq2 = fold (\<lambda>i s. s + (signal2 ! i - mean2) * (signal2 ! i - mean2))
                          [0..<length signal1] 0;
            denominator = sqrt (sum_sq1 * sum_sq2)
        in if denominator < 1 / 10 ^ 10 then 0 else numerator / denominator)"

section \<open>Median filter\<close>

record MedianFilter =
  mf_windowSize :: nat

definition IsValidWindowSize :: "nat \<Rightarrow> bool" where
  "IsValidWindowSize windowSize = (windowSize \<noteq> 0 \<and> windowSize mod 2 \<noteq> 0)"

text \<open>\<open>MedianFilter::setWindowSize\<close> and the constructor, which only calls it.\<close>

definition setWindowSize :: "MedianFilter \<Rightarrow> nat \<Rightarrow> error + MedianFilter" where
  "setWindowSize f windowSize =
     (if \<not> IsValidWindowSize windowSize then Inl Invalid_argument
      else Inr (f\<lparr>mf_windowSize := windowSize\<rparr>))"

definition MedianFilter_new :: "nat \<Rightarrow> error + MedianFilter" where
  "MedianFilter_new windowSize = setWindowSize \<lparr>mf_windowSize = 0\<rparr> windowSize"

text \<open>
  The local \<open>window\<close> of \<open>MedianFilter::computeWindowMedian\<close>: the clipped samples,
  then \<open>input[0]\<close> inserted in front \<open>halfWindow - index\<close> times, then
  \<open>input.back()\<close> appended \<open>index + halfWindow + 1 - size\<close> times.
\<close>

definition medianWindow :: "MedianFilter \<Rightarrow> Signal \<Rightarrow> nat \<Rightarrow> real list" where
  "medianWindow f input index =
     (let halfWindow = mf_windowSize f div 2;
          startIdx = (if index \<ge> halfWindow then index - halfWindow else 0);
          endIdx = min (index + halfWindow + 1) (length input);
          window = map (\<lambda>i. input ! i) [startIdx..<endIdx];
          window = (if index < halfWindow
                    then replicate (halfWindow - index) (input ! 0) @ window else window);
          window = (if index + halfWindow \<ge> length input
                    then window @ replicate (index + halfWindow + 1 - length input) (last input)
                    else window)
      in window)"

definition computeWindowMedian :: "MedianFilter \<Rightarrow> Signal \<Rightarrow> nat \<Rightarrow> real" where
  "computeWindowMedian f input index = median (medianWindow f input index)"

definition MedianFilter_process :: "MedianFilter \<Rightarrow> Signal \<Rightarrow> Signal" where
  "MedianFilter_process f input =
     (if input = [] then []
      else map (\<lambda>i. computeWindowMedian f input i) [0..<length input])"

section \<open>Adaptive predictive (Wiener) filter\<close>

text \<open>
  The weights are the only field \<open>process\<close> writes. \<open>rand()\<close> and \<open>RAND_MAX\<close> belong to
  the C library: the generator is a parameter \<open>rnd\<close> that maps the hidden state of the
  library to the number drawn and the next state, and \<open>RAND_MAX\<close> is a parameter too.
\<close>

record WienerFilter =
  wf_filterOrder :: nat
  wf_mu :: real
  wf_lambda :: real
  wf_weights :: "real list"

text \<open>\<open>WienerFilter::reset\<close>: assign zeros, then overwrite each weight with a small random value.\<close>

definition WienerFilter_reset ::
  "('g \<Rightarrow> int \<times> 'g) \<Rightarrow> int \<Rightarrow> WienerFilter \<Rightarrow> 'g \<Rightarrow> WienerFilter \<times> 'g" where
  "WienerFilter_reset rnd RAND_MAX f g =
     (let (w, g') =
        fold (\<lambda>i (w, g). let (r, g') = rnd g
                in (w[i := (1 / 1000) * (real_of_int r / real_of_int RAND_MAX - 1 / 2)], g'))
          [0..<wf_filterOrder f] (replicate (wf_filterOrder f) 0, g)
      in (f\<lparr>wf_weights := w\<rparr>, g'))"

text \<open>The constructor: three checks, then \<open>reset()\<close>. A throw leaves the generator untouched.\<close>

definition WienerFilter_new ::
  "('g \<Rightarrow> int \<times> 'g) \<Rightarrow> int \<Rightarrow> nat \<Rightarrow> real \<Rightarrow> real \<Rightarrow> 'g \<Rightarrow> error + (WienerFilter \<times> 'g)" where
  "WienerFilter_new rnd RAND_MAX filterOrder mu lambda g =
     (if filterOrder = 0 then Inl Invalid_argument
      else if mu \<le> 0 \<or> mu \<ge> 1 then Inl Invalid_argument
      else if lambda \<le> 0 \<or> lambda > 1 then Inl Invalid_argument
      else Inr (WienerFilter_reset rnd RAND_MAX
             \<lparr>wf_filterOrder = filterOrder, wf_mu = mu, wf_lambda = lambda, wf_weights = []\<rparr> g))"

text \<open>\<open>WienerFilter::setParameters\<close>: the same checks, the three assignments, then \<open>reset()\<close>.\<close>

definition WienerFilter_setParameters ::
  "('g \<Rightarrow> int \<times> 'g) \<Rightarrow> int \<Rightarrow> WienerFilter \<Rightarrow> nat \<Rightarrow> real \<Rightarrow> real \<Rightarrow> 'g
     \<Rightarrow> error + (WienerFilter \<times> 'g)" where
  "WienerFilter_setParameters rnd RAND_MAX f filterOrder mu lambda g =
     (if filterOrder = 0 then Inl Invalid_argument
      else if mu \<le> 0 \<or> mu \<ge> 1 then Inl Invalid_argument
      else if lambda \<le> 0 \<or> lambda > 1 then Inl Invalid_argument
      else Inr (WienerFilter_reset rnd RAND_MAX
             (f\<lparr>wf_filterOrder := filterOrder, wf_mu := mu, wf_lambda := lambda\<rparr>) g))"

text \<open>
  The pieces of one iteration of the loop of \<open>processLMS\<close>, in the order of the source:
  the shift of the delay buffer (from index \<open>filterOrder_ - 1\<close> down to 1, then slot 0),
  the output \<open>y\<close>, the desired value, the weight update.
\<close>

definition shiftDelay :: "nat \<Rightarrow> real list \<Rightarrow> real \<Rightarrow> real list" where
  "shiftDelay filterOrder delayBuffer x =
     (fold (\<lambda>i d. d[i := d ! (i - 1)]) (rev [1..<filterOrder]) delayBuffer)[0 := x]"

definition filterOutput :: "nat \<Rightarrow> real list \<Rightarrow> real list \<Rightarrow> real" where
  "filterOutput filterOrder weights delayBuffer =
     fold (\<lambda>i y. y + weights ! i * delayBuffer ! i) [0..<filterOrder] 0"

definition desired :: "Signal \<Rightarrow> nat \<Rightarrow> real" where
  "desired input n =
     (if n > 0
      then (1 / 2) * (input ! (n - 1) + (if n < length input - 1 then input ! (n + 1) else input ! n))
      else input ! n)"

definition updateWeights :: "nat \<Rightarrow> real \<Rightarrow> real \<Rightarrow> real list \<Rightarrow> real list \<Rightarrow> real list" where
  "updateWeights filterOrder mu err delayBuffer weights =
     fold (\<lambda>i w. w[i := w ! i + mu * err * delayBuffer ! i]) [0..<filterOrder] weights"

text \<open>The loop state is (weights, delay buffer, output so far).\<close>

definition lmsStep ::
  "nat \<Rightarrow> real \<Rightarrow> Signal \<Rightarrow> nat \<Rightarrow> real list \<times> real list \<times> Signal
     \<Rightarrow> real list \<times> real list \<times> Signal" where
  "lmsStep filterOrder mu input n s =
     (case s of (weights, delayBuffer, output) \<Rightarrow>
        let delayBuffer = shiftDelay filterOrder delayBuffer (input ! n);
            y = filterOutput filterOrder weights delayBuffer;
            err = desired input n - y;
            weights = updateWeights filterOrder mu err delayBuffer weights
        in (weights, delayBuffer, output @ [y]))"

definition lmsLoop :: "WienerFilter \<Rightarrow> Signal \<Rightarrow> nat \<Rightarrow> real list \<times> real list \<times> Signal" where
  "lmsLoop f input n =
     fold (lmsStep (wf_filterOrder f) (wf_mu f) input) [0..<n]
       (wf_weights f, replicate (wf_filterOrder f) 0, [])"

definition processLMS :: "WienerFilter \<Rightarrow> Signal \<Rightarrow> Signal \<times> WienerFilter" where
  "processLMS f input =
     (case lmsLoop f input (length input) of
        (weights, delayBuffer, output) \<Rightarrow> (output, f\<lparr>wf_weights := weights\<rparr>))"

definition WienerFilter_process :: "WienerFilter \<Rightarrow> Signal \<Rightarrow> Signal \<times> WienerFilter" where
  "WienerFilter_process f input = (if input = [] then ([], f) else processLMS f input)"

section \<open>Morphological filter\<close>

datatype Operation = OPENING | CLOSING | EROSION | DILATION

record MorphologicalFilter =
  mo_operation :: Operation
  mo_structuringElement :: "real list"

text \<open>
  \<open>std::numeric_limits<double>::max()\<close>, the largest finite double; \<open>lowest()\<close> is its
  negation. Both loops start from these sentinels and compare against them afterwards.
\<close>

definition DBL_MAX :: real where
  "DBL_MAX = 2 ^ 1024 - 2 ^ 971"

definition DBL_LOWEST :: real where
  "DBL_LOWEST = - DBL_MAX"

definition createFlatElement :: "nat \<Rightarrow> error + real list" where
  "createFlatElement elementSize =
     (if elementSize = 0 then Inl Invalid_argument else Inr (replicate elementSize 0))"

text \<open>The constructor from a size and the constructor from an explicit element.\<close>

definition MorphologicalFilter_new :: "Operation \<Rightarrow> nat \<Rightarrow> error + MorphologicalFilter" where
  "MorphologicalFilter_new operation elementSize =
     (case createFlatElement elementSize of
        Inl e \<Rightarrow> Inl e
      | Inr el \<Rightarrow> Inr \<lparr>mo_operation = operation, mo_structuringElement = el\<rparr>)"

definition MorphologicalFilter_new_element ::
  "Operation \<Rightarrow> real list \<Rightarrow> error + MorphologicalFilter" where
  "MorphologicalFilter_new_element operation structuringElement =
     (if structuringElement = [] then Inl Invalid_argument
      else Inr \<lparr>mo_operation = operation, mo_structuringElement = structuringElement\<rparr>)"

definition setOperation :: "MorphologicalFilter \<Rightarrow> Operation \<Rightarrow> MorphologicalFilter" where
  "setOperation f operation = f\<lparr>mo_operation := operation\<rparr>"

definition setStructuringElement ::
  "MorphologicalFilter \<Rightarrow> real list \<Rightarrow> error + MorphologicalFilter" where
  "setStructuringElement f structuringElement =
     (if structuringElement = [] then Inl Invalid_argument
      else Inr (f\<lparr>mo_structuringElement := structuringElement\<rparr>))"

text \<open>The inner loop of \<open>erosion\<close> over the positions \<open>j\<close> of the element, for one sample \<open>i\<close>.\<close>

definition erosionAt :: "real list \<Rightarrow> Signal \<Rightarrow> nat \<Rightarrow> real" where
  "erosionAt se input i =
     (let halfSize = length se div 2;
          minVal = fold (\<lambda>j minVal.
                      let signalIndex = int i - int halfSize + int j
                      in if signalIndex \<ge> 0 \<and> signalIndex < int (length input)
                         then min minVal (input ! nat signalIndex - se ! j)
                         else minVal)
                     [0..<length se] DBL_MAX
      in if minVal = DBL_MAX then input ! i else minVal)"

definition erosion :: "MorphologicalFilter \<Rightarrow> Signal \<Rightarrow> Signal" where
  "erosion f input = map (erosionAt (mo_structuringElement f) input) [0..<length input]"

definition dilationAt :: "real list \<Rightarrow> Signal \<Rightarrow> nat \<Rightarrow> real" where
  "dilationAt se input i =
     (let halfSize = length se div 2;
          maxVal = fold (\<lambda>j maxVal.
                      let signalIndex = int i - int halfSize + int j
                      in if signalIndex \<ge> 0 \<and> signalIndex < int (length input)
                         then max maxVal (input ! nat signalIndex + se ! j)
                         else maxVal)
                     [0..<length se] DBL_LOWEST
      in if maxVal = DBL_LOWEST then input ! i else maxVal)"

definition dilation :: "MorphologicalFilter \<Rightarrow> Signal \<Rightarrow> Signal" where
  "dilation f input = map (dilationAt (mo_structuringElement f) input) [0..<length input]"

text \<open>
  \<open>opening\<close> and \<open>closing\<close> build a temporary filter for the second pass with the
  validating constructor, so its error is a branch here.
\<close>

definition "opening" :: "MorphologicalFilter \<Rightarrow> Signal \<Rightarrow> error + Signal" where
  "opening f input =
     (let eroded = erosion f input
      in case MorphologicalFilter_new_element DILATION (mo_structuringElement f) of
           Inl e \<Rightarrow> Inl e
         | Inr dilationFilter \<Rightarrow> Inr (dilation dilationFilter eroded))"

definition closing :: "MorphologicalFilter \<Rightarrow> Signal \<Rightarrow> error + Signal" where
  "closing f input =
     (let dilated = dilation f input
      in case MorphologicalFilter_new_element EROSION (mo_structuringElement f) of
           Inl e \<Rightarrow> Inl e
         | Inr erosionFilter \<Rightarrow> Inr (erosion erosionFilter dilated))"

definition MorphologicalFilter_process :: "MorphologicalFilter \<Rightarrow> Signal \<Rightarrow> error + Signal" where
  "MorphologicalFilter_process f input =
     (if input = [] then Inr []
      else case mo_operation f of
             EROSION \<Rightarrow> Inr (erosion f input)
           | DILATION \<Rightarrow> Inr (dilation f input)
           | OPENING \<Rightarrow> opening f input
           | CLOSING \<Rightarrow> closing f input)"

section \<open>Outlier detection and interpolation\<close>

datatype DetectionMethod = MAD_BASED | STATISTICAL | ADAPTIVE_THRESHOLD

datatype InterpolationMethod = LINEAR | SPLINE | MEDIAN_BASED | AUTOREGRESSIVE

record OutlierDetection =
  od_detectionMethod :: DetectionMethod
  od_interpolationMethod :: InterpolationMethod
  od_threshold :: real
  od_windowSize :: nat
  od_arOrder :: nat

text \<open>The constructor (the fields are initialised first, \<open>arOrder_\<close> with 5) and \<open>setParameters\<close>.\<close>

definition OutlierDetection_new ::
  "DetectionMethod \<Rightarrow> InterpolationMethod \<Rightarrow> real \<Rightarrow> nat \<Rightarrow> error + OutlierDetection" where
  "OutlierDetection_new detectionMethod interpolationMethod threshold windowSize =
     (if threshold \<le> 0 then Inl Invalid_argument
      else if windowSize = 0 \<or> windowSize mod 2 = 0 then Inl Invalid_argument
      else Inr \<lparr>od_detectionMethod = detectionMethod, od_interpolationMethod = interpolationMethod,
                od_threshold = threshold, od_windowSize = windowSize, od_arOrder = 5\<rparr>)"

definition OutlierDetection_setParameters ::
  "OutlierDetection \<Rightarrow> DetectionMethod \<Rightarrow> InterpolationMethod \<Rightarrow> real \<Rightarrow> nat
     \<Rightarrow> error + OutlierDetection" where
  "OutlierDetection_setParameters f detectionMethod interpolationMethod threshold windowSize =
     (if threshold \<le> 0 then Inl Invalid_argument
      else if windowSize = 0 \<or> windowSize mod 2 = 0 then Inl Invalid_argument
      else Inr (f\<lparr>od_detectionMethod := detectionMethod,
                  od_interpolationMethod := interpolationMethod,
                  od_threshold := threshold, od_windowSize := windowSize\<rparr>))"

text \<open>
  The local \<open>window\<close> of \<open>detectMADBased\<close>: the samples from \<open>startIdx\<close> up to
  \<open>endIdx\<close>, clipped at both ends of the signal and not padded.
\<close>

definition clippedWindow :: "nat \<Rightarrow> Signal \<Rightarrow> nat \<Rightarrow> real list" where
  "clippedWindow halfWindow input i =
     (let startIdx = (if i \<ge> halfWindow then i - halfWindow else 0);
          endIdx = min (i + halfWindow + 1) (length input)
      in map (\<lambda>j. input ! j) [startIdx..<endIdx])"

text \<open>\<open>detectMADBased\<close>: the mask starts all false; iteration \<open>i\<close> may set entry \<open>i\<close>.\<close>

definition detectMADBased :: "OutlierDetection \<Rightarrow> Signal \<Rightarrow> bool list" where
  "detectMADBased f input =
     (let halfWindow = od_windowSize f div 2 in
      fold (\<lambda>i outliers.
              let window = clippedWindow halfWindow input i
              in if length window < 3 then outliers
                 else let med = median window;
                          madValue = mad window med
                      in if madValue > 0
                         then (let deviation = \<bar>input ! i - med\<bar>
                               in if deviation > od_threshold f * madValue
                                  then outliers[i := True] else outliers)
                         else outliers)
           [0..<length input] (replicate (length input) False))"

text \<open>
  The flagging rule in the words of the specification: the window has at least three
  samples, its MAD is positive, and the sample deviates from the window median by more than
  threshold times MAD.
\<close>

definition madFlagRule :: "OutlierDetection \<Rightarrow> Signal \<Rightarrow> nat \<Rightarrow> bool" where
  "madFlagRule f input i =
     (let window = clippedWindow (od_windowSize f div 2) input i
      in 3 \<le> length window \<and> 0 < mad window (median window)
         \<and> \<bar>input ! i - median window\<bar> > od_threshold f * mad window (median window))"

definition detectStatistical :: "OutlierDetection \<Rightarrow> Signal \<Rightarrow> bool list" where
  "detectStatistical f input =
     (let outliers = replicate (length input) False;
          mean = fold (\<lambda>v s. s + v) input 0 / real (length input);
          variance = fold (\<lambda>v s. s + (v - mean) * (v - mean)) input 0;
          variance = variance / real (length input);
          stddev = sqrt variance
      in if stddev = 0 then outliers
         else fold (\<lambda>i outliers.
                      let zscore = \<bar>input ! i - mean\<bar> / stddev
                      in if zscore > od_threshold f then outliers[i := True] else outliers)
                [0..<length input] outliers)"

definition detectAdaptiveThreshold :: "OutlierDetection \<Rightarrow> Signal \<Rightarrow> bool list" where
  "detectAdaptiveThreshold f input =
     (let halfWindow = od_windowSize f div 2 in
      fold (\<lambda>i outliers.
              let startIdx = (if i \<ge> halfWindow then i - halfWindow else 0);
                  endIdx = min (i + halfWindow + 1) (length input);
                  (localSum, count) =
                     fold (\<lambda>j (localSum, count).
                             if j \<noteq> i then (localSum + input ! j, count + 1)
                             else (localSum, count))
                       [startIdx..<endIdx] (0, 0 :: nat)
              in if count = 0 then outliers
                 else let localMean = localSum / real count;
                          localVariance =
                            fold (\<lambda>j v. if j \<noteq> i
                                         then v + (input ! j - localMean) * (input ! j - localMean)
                                         else v)
                              [startIdx..<endIdx] 0;
                          localVariance = localVariance / real count;
                          localStddev = sqrt localVariance;
                          adaptiveThreshold =
                            (if localStddev = 0 then od_threshold f
                             else od_threshold f * localStddev)
                      in if \<bar>input ! i - localMean\<bar> > adaptiveThreshold
                         then outliers[i := True] else outliers)
           [0..<length input] (replicate (length input) False))"

definition detectOutliers :: "OutlierDetection \<Rightarrow> Signal \<Rightarrow> bool list" where
  "detectOutliers f input =
     (case od_detectionMethod f of
        MAD_BASED \<Rightarrow> detectMADBased f input
      | STATISTICAL \<Rightarrow> detectStatistical f input
      | ADAPTIVE_THRESHOLD \<Rightarrow> detectAdaptiveThreshold f input)"

text \<open>
  \<open>findNearestNormalPoints\<close>: the first unflagged index going left from \<open>index - 1\<close>, and
  the first going right from \<open>index + 1\<close>; \<open>-1\<close> where there is none.
\<close>

definition findNearestNormalPoints :: "bool list \<Rightarrow> nat \<Rightarrow> int \<times> int" where
  "findNearestNormalPoints outliers index =
     (let leftIdx = (case find (\<lambda>i. \<not> outliers ! i) (rev [0..<index]) of
                       None \<Rightarrow> - 1 | Some i \<Rightarrow> int i);
          rightIdx = (case find (\<lambda>i. \<not> outliers ! i) [index + 1..<length outliers] of
                       None \<Rightarrow> - 1 | Some i \<Rightarrow> int i)
      in (leftIdx, rightIdx))"

definition interpolateLinear :: "Signal \<Rightarrow> bool list \<Rightarrow> Signal" where
  "interpolateLinear input outliers =
     fold (\<lambda>i result.
             if outliers ! i
             then (case findNearestNormalPoints outliers i of (leftIdx, rightIdx) \<Rightarrow>
                     if leftIdx \<ge> 0 \<and> rightIdx \<ge> 0
                     then result[i := linearInterpolate (real_of_int leftIdx) (input ! nat leftIdx)
                                        (real_of_int rightIdx) (input ! nat rightIdx) (real i)]
                     else if leftIdx \<ge> 0 then result[i := input ! nat leftIdx]
                     else if rightIdx \<ge> 0 then result[i := input ! nat rightIdx]
                     else result)
             else result)
       [0..<length outliers] input"

definition interpolateMedian :: "OutlierDetection \<Rightarrow> Signal \<Rightarrow> bool list \<Rightarrow> Signal" where
  "interpolateMedian f input outliers =
     (let halfWindow = min (od_windowSize f div 2) 5 in
      fold (\<lambda>i result.
              if outliers ! i
              then (let neighbors =
                          map (\<lambda>j. input ! j)
                            (filter (\<lambda>j. j \<noteq> i \<and> \<not> outliers ! j)
                               [(if i \<ge> halfWindow then i - halfWindow else 0)
                                  ..<min (i + halfWindow + 1) (length input)])
                    in if neighbors \<noteq> [] then result[i := median neighbors] else result)
              else result)
        [0..<length outliers] input)"

definition interpolateAutoregressive :: "OutlierDetection \<Rightarrow> Signal \<Rightarrow> bool list \<Rightarrow> Signal" where
  "interpolateAutoregressive f input outliers =
     fold (\<lambda>i result.
             if outliers ! i
             then (let (sum, weightSum, usedPoints) =
                         fold (\<lambda>j (sum, weightSum, usedPoints).
                                 let idx = i - j
                                 in if \<not> outliers ! idx
                                    then (let weight = 1 / real j
                                          in (sum + weight * result ! idx, weightSum + weight,
                                              usedPoints + 1))
                                    else (sum, weightSum, usedPoints))
                           [1..<min (od_arOrder f) i + 1] (0, 0, 0 :: nat)
                   in if weightSum > 0 then result[i := sum / weightSum]
                      else result[i := interpolateLinear input outliers ! i])
             else result)
       [0..<length outliers] input"

definition OutlierDetection_process :: "OutlierDetection \<Rightarrow> Signal \<Rightarrow> Signal" where
  "OutlierDetection_process f input =
     (if input = [] then []
      else let outliers = detectOutliers f input
           in case od_interpolationMethod f of
                LINEAR \<Rightarrow> interpolateLinear input outliers
              | MEDIAN_BASED \<Rightarrow> interpolateMedian f input outliers
              | AUTOREGRESSIVE \<Rightarrow> interpolateAutoregressive f input outliers
              | SPLINE \<Rightarrow> interpolateLinear input outliers)"

section \<open>Savitzky-Golay filter\<close>

record SavgolFilter =
  sg_windowSize :: nat
  sg_polyOrder :: nat
  sg_coefficients :: "real list"

text \<open>
  \<open>gaussElimination\<close>, loop by loop. All of its indices stay below \<open>n\<close>, the size of
  the square matrix. The forward pass is a recursion over the pivot columns because it can throw.
\<close>

definition findMaxRow :: "real list list \<Rightarrow> nat \<Rightarrow> nat \<Rightarrow> nat" where
  "findMaxRow matrix n i =
     fold (\<lambda>k maxRow. if \<bar>matrix ! k ! i\<bar> > \<bar>matrix ! maxRow ! i\<bar> then k else maxRow)
       [i + 1..<n] i"

definition swapRows :: "'a list \<Rightarrow> nat \<Rightarrow> nat \<Rightarrow> 'a list" where
  "swapRows xs i j = xs[i := xs ! j, j := xs ! i]"

definition eliminateRow ::
  "nat \<Rightarrow> nat \<Rightarrow> nat \<Rightarrow> real list list \<times> real list \<Rightarrow> real list list \<times> real list" where
  "eliminateRow n i k s =
     (case s of (matrix, rhs) \<Rightarrow>
        let factor = matrix ! k ! i / matrix ! i ! i;
            matrix = fold (\<lambda>j m. m[k := (m ! k)[j := m ! k ! j - factor * m ! i ! j]])
                       [i..<n] matrix;
            rhs = rhs[k := rhs ! k - factor * rhs ! i]
        in (matrix, rhs))"

fun forwardElimination ::
  "nat \<Rightarrow> nat list \<Rightarrow> real list list \<times> real list \<Rightarrow> error + (real list list \<times> real list)" where
  "forwardElimination n [] s = Inr s"
| "forwardElimination n (i # is) s =
     (case s of (matrix, rhs) \<Rightarrow>
        let maxRow = findMaxRow matrix n i;
            matrix = (if maxRow \<noteq> i then swapRows matrix i maxRow else matrix);
            rhs = (if maxRow \<noteq> i then swapRows rhs i maxRow else rhs)
        in if \<bar>matrix ! i ! i\<bar> < 1 / 10 ^ 12 then Inl Runtime_error
           else forwardElimination n is (fold (eliminateRow n i) [i + 1..<n] (matrix, rhs)))"

definition backSubstitution :: "nat \<Rightarrow> real list list \<Rightarrow> real list \<Rightarrow> real list" where
  "backSubstitution n matrix rhs =
     fold (\<lambda>i solution.
             let solution = solution[i := rhs ! i];
                 solution = fold (\<lambda>j s. s[i := s ! i - matrix ! i ! j * s ! j])
                              [i + 1..<n] solution
             in solution[i := solution ! i / matrix ! i ! i])
       (rev [0..<n]) (replicate n 0)"

definition gaussElimination :: "real list list \<Rightarrow> real list \<Rightarrow> error + real list" where
  "gaussElimination matrix rhs =
     (let n = length matrix
      in case forwardElimination n [0..<n] (matrix, rhs) of
           Inl e \<Rightarrow> Inl e
         | Inr (m, r) \<Rightarrow> Inr (backSubstitution n m r))"

text \<open>
  \<open>calculateCoefficients\<close>: the matrix of power sums over the offsets \<open>-halfWindow..halfWindow\<close>,
  the right-hand side \<open>(1, 0, ..., 0)\<close>, the solve, then one tap per window position.
\<close>

definition momentMatrix :: "nat \<Rightarrow> nat \<Rightarrow> real list list" where
  "momentMatrix halfWindow polyOrder =
     map (\<lambda>i. map (\<lambda>j. fold (\<lambda>k sum. sum + real_of_int k ^ (i + j))
                            [- int halfWindow..int halfWindow] 0)
                 [0..<polyOrder + 1])
       [0..<polyOrder + 1]"

definition calculateCoefficients :: "SavgolFilter \<Rightarrow> error + SavgolFilter" where
  "calculateCoefficients f =
     (let halfWindow = sg_windowSize f div 2;
          matrix = momentMatrix halfWindow (sg_polyOrder f);
          rhs = (replicate (sg_polyOrder f + 1) 0)[0 := 1]
      in case gaussElimination matrix rhs of
           Inl e \<Rightarrow> Inl e
         | Inr polyCoeffs \<Rightarrow>
             Inr (f\<lparr>sg_coefficients :=
                     map (\<lambda>i. let k = int i - int halfWindow
                               in fold (\<lambda>j coeff. coeff + polyCoeffs ! j * real_of_int k ^ j)
                                    [0..<sg_polyOrder f + 1] 0)
                       [0..<sg_windowSize f]\<rparr>))"

definition SavgolFilter_new :: "nat \<Rightarrow> nat \<Rightarrow> error + SavgolFilter" where
  "SavgolFilter_new windowSize polyOrder =
     (if windowSize = 0 \<or> windowSize mod 2 = 0 then Inl Invalid_argument
      else if polyOrder \<ge> windowSize then Inl Invalid_argument
      else calculateCoefficients
             \<lparr>sg_windowSize = windowSize, sg_polyOrder = polyOrder, sg_coefficients = []\<rparr>)"

definition SavgolFilter_setParameters :: "SavgolFilter \<Rightarrow> nat \<Rightarrow> nat \<Rightarrow> error + SavgolFilter" where
  "SavgolFilter_setParameters f windowSize polyOrder =
     (if windowSize = 0 \<or> windowSize mod 2 = 0 then Inl Invalid_argument
      else if polyOrder \<ge> windowSize then Inl Invalid_argument
      else calculateCoefficients (f\<lparr>sg_windowSize := windowSize, sg_polyOrder := polyOrder\<rparr>))"

text \<open>
  A read \<open>input[k]\<close> whose index the source does not guard: outside \<open>0..size-1\<close> the
  behaviour is undefined, which the model reports as \<open>Out_of_bounds\<close>.
\<close>

definition readAt :: "Signal \<Rightarrow> int \<Rightarrow> error + real" where
  "readAt input k =
     (if 0 \<le> k \<and> k < int (length input) then Inr (input ! nat k) else Inl Out_of_bounds)"

text \<open>\<open>getReflectedValue\<close>: three branches, as in the source; only the right one clamps.\<close>

definition getReflectedValue :: "Signal \<Rightarrow> int \<Rightarrow> error + real" where
  "getReflectedValue input index =
     (if index < 0 then readAt input (- index)
      else if index \<ge> int (length input)
      then (let reflectedIndex = 2 * int (length input) - 2 - index
            in if reflectedIndex < 0 then readAt input 0 else readAt input reflectedIndex)
      else readAt input index)"

text \<open>The loop of \<open>applyFilter\<close> over the window positions, stopping at the first bad read.\<close>

fun applyFilterLoop :: "SavgolFilter \<Rightarrow> Signal \<Rightarrow> nat \<Rightarrow> nat list \<Rightarrow> real \<Rightarrow> error + real" where
  "applyFilterLoop f input centerIndex [] result = Inr result"
| "applyFilterLoop f input centerIndex (i # is) result =
     (let halfWindow = sg_windowSize f div 2;
          signalIndex = int centerIndex - int halfWindow + int i
      in case getReflectedValue input signalIndex of
           Inl e \<Rightarrow> Inl e
         | Inr v \<Rightarrow>
             applyFilterLoop f input centerIndex is (result + sg_coefficients f ! i * v))"

definition applyFilter :: "SavgolFilter \<Rightarrow> Signal \<Rightarrow> nat \<Rightarrow> error + real" where
  "applyFilter f input centerIndex =
     applyFilterLoop f input centerIndex [0..<sg_windowSize f] 0"

fun savgolLoop :: "SavgolFilter \<Rightarrow> Signal \<Rightarrow> nat list \<Rightarrow> Signal \<Rightarrow> error + Signal" where
  "savgolLoop f input [] output = Inr output"
| "savgolLoop f input (i # is) output =
     (case applyFilter f input i of
        Inl e \<Rightarrow> Inl e
      | Inr v \<Rightarrow> savgolLoop f input is (output @ [v]))"

definition SavgolFilter_process :: "SavgolFilter \<Rightarrow> Signal \<Rightarrow> error + Signal" where
  "SavgolFilter_process f input =
     (if input = [] then Inr [] else savgolLoop f input [0..<length input] [])"

section \<open>Doubles with infinities and NaN\<close>

text \<open>
  The sections above carry a \<open>double\<close> as a real number. Two places of the source are also
  modelled on the values a \<open>double\<close> really has: the parameter checks of the constructors,
  which compare, and the Savitzky-Golay coefficients, which can overflow. A value is a finite
  number (the zero with the sign bit set is a value of its own), an infinity, or NaN.
\<close>

datatype double = Finite real | NegZero | PlusInf | MinusInf | NaN

fun d_isnan :: "double \<Rightarrow> bool" where
  "d_isnan NaN = True"
| "d_isnan d = False"

fun d_isinf :: "double \<Rightarrow> bool" where
  "d_isinf PlusInf = True"
| "d_isinf MinusInf = True"
| "d_isinf d = False"

fun d_isfinite :: "double \<Rightarrow> bool" where
  "d_isfinite (Finite x) = True"
| "d_isfinite NegZero = True"
| "d_isfinite d = False"

text \<open>The sign bit, the test for a zero, and the number a finite value stands for.\<close>

fun d_signbit :: "double \<Rightarrow> bool" where
  "d_signbit (Finite x) = (x < 0)"
| "d_signbit NegZero = True"
| "d_signbit MinusInf = True"
| "d_signbit d = False"

fun d_iszero :: "double \<Rightarrow> bool" where
  "d_iszero (Finite x) = (x = 0)"
| "d_iszero NegZero = True"
| "d_iszero d = False"

fun d_real :: "double \<Rightarrow> real" where
  "d_real (Finite x) = x"
| "d_real d = 0"

definition d_infinity :: "bool \<Rightarrow> double" where
  "d_infinity negative = (if negative then MinusInf else PlusInf)"

definition d_zero :: "bool \<Rightarrow> double" where
  "d_zero negative = (if negative then NegZero else Finite 0)"

text \<open>
  The comparisons \<open><\<close> and \<open><=\<close>: false as soon as one side is NaN. \<open>a > b\<close> is
  \<open>b < a\<close> and \<open>a >= b\<close> is \<open>b <= a\<close>.
\<close>

definition d_less :: "double \<Rightarrow> double \<Rightarrow> bool" where
  "d_less a b =
     (if d_isnan a \<or> d_isnan b then False
      else if a = PlusInf \<or> b = MinusInf then False
      else if a = MinusInf \<or> b = PlusInf then True
      else d_real a < d_real b)"

definition d_less_eq :: "double \<Rightarrow> double \<Rightarrow> bool" where
  "d_less_eq a b =
     (if d_isnan a \<or> d_isnan b then False
      else if a = MinusInf \<or> b = PlusInf then True
      else if a = PlusInf \<or> b = MinusInf then False
      else d_real a \<le> d_real b)"

text \<open>
  The arithmetic of the processor and of the C library. What an operation returns on two
  finite operands (the rounded result, an infinity when that overflows) is a parameter, and so
  is the double that the literal \<open>1e-12\<close> denotes. What it returns when an operand is an
  infinity or NaN is fixed by IEEE 754 and written out below. Each operation of the source is
  one operation here, in the order written; a multiplication fused with the subtraction that
  follows it is not modelled.
\<close>

record fpu =
  f_add :: "double \<Rightarrow> double \<Rightarrow> double"
  f_sub :: "double \<Rightarrow> double \<Rightarrow> double"
  f_mul :: "double \<Rightarrow> double \<Rightarrow> double"
  f_div :: "double \<Rightarrow> double \<Rightarrow> double"
  f_pow :: "int \<Rightarrow> nat \<Rightarrow> double"
  f_1e_12 :: double

definition d_add :: "fpu \<Rightarrow> double \<Rightarrow> double \<Rightarrow> double" where
  "d_add fp a b =
     (if d_isnan a \<or> d_isnan b then NaN
      else if d_isinf a then (if d_isinf b \<and> a \<noteq> b then NaN else a)
      else if d_isinf b then b
      else f_add fp a b)"

definition d_sub :: "fpu \<Rightarrow> double \<Rightarrow> double \<Rightarrow> double" where
  "d_sub fp a b =
     (if d_isnan a \<or> d_isnan b then NaN
      else if d_isinf a then (if a = b then NaN else a)
      else if d_isinf b then d_infinity (b = PlusInf)
      else f_sub fp a b)"

definition d_mul :: "fpu \<Rightarrow> double \<Rightarrow> double \<Rightarrow> double" where
  "d_mul fp a b =
     (if d_isnan a \<or> d_isnan b then NaN
      else if d_isinf a \<or> d_isinf b
      then (if d_iszero a \<or> d_iszero b then NaN else d_infinity (d_signbit a \<noteq> d_signbit b))
      else f_mul fp a b)"

definition d_div :: "fpu \<Rightarrow> double \<Rightarrow> double \<Rightarrow> double" where
  "d_div fp a b =
     (if d_isnan a \<or> d_isnan b then NaN
      else if d_isinf a
      then (if d_isinf b then NaN else d_infinity (d_signbit a \<noteq> d_signbit b))
      else if d_isinf b then d_zero (d_signbit a \<noteq> d_signbit b)
      else if d_iszero b
      then (if d_iszero a then NaN else d_infinity (d_signbit a \<noteq> d_signbit b))
      else f_div fp a b)"

fun d_abs :: "double \<Rightarrow> double" where
  "d_abs (Finite x) = Finite \<bar>x\<bar>"
| "d_abs NegZero = Finite 0"
| "d_abs PlusInf = PlusInf"
| "d_abs MinusInf = PlusInf"
| "d_abs NaN = NaN"

text \<open>
  \<open>std::pow(k, e)\<close> at an \<open>int\<close> base and a \<open>size_t\<close> exponent, both converted to
  \<open>double\<close> without loss. A power of magnitude \<open>2^1024\<close> or more is above every finite
  double and the library returns the infinity of its sign; below that the result is the
  parameter's.
\<close>

definition d_pow :: "fpu \<Rightarrow> int \<Rightarrow> nat \<Rightarrow> double" where
  "d_pow fp k e =
     (if 2 ^ 1024 \<le> \<bar>real_of_int k ^ e\<bar> then d_infinity (real_of_int k ^ e < 0)
      else f_pow fp k e)"

section \<open>Parameter checks on doubles\<close>

text \<open>
  The constructors of the adaptive filter and of the outlier detector with their \<open>double\<close>
  parameters as doubles. The tests are those of the source, operator by operator:
  \<open>mu <= 0.0 || mu >= 1.0\<close>, \<open>lambda <= 0.0 || lambda > 1.0\<close> and \<open>threshold <= 0.0\<close>.
  \<open>setParameters\<close> of either class makes the same tests before it assigns. The weights stay
  real numbers: \<open>reset()\<close> reads neither \<open>mu\<close> nor \<open>lambda\<close>.
\<close>

record WienerFilter_dbl =
  wd_filterOrder :: nat
  wd_mu :: double
  wd_lambda :: double
  wd_weights :: "real list"

definition WienerFilter_reset_dbl ::
  "('g \<Rightarrow> int \<times> 'g) \<Rightarrow> int \<Rightarrow> WienerFilter_dbl \<Rightarrow> 'g \<Rightarrow> WienerFilter_dbl \<times> 'g" where
  "WienerFilter_reset_dbl rnd RAND_MAX f g =
     (let (w, g') =
        fold (\<lambda>i (w, g). let (r, g') = rnd g
                in (w[i := (1 / 1000) * (real_of_int r / real_of_int RAND_MAX - 1 / 2)], g'))
          [0..<wd_filterOrder f] (replicate (wd_filterOrder f) 0, g)
      in (f\<lparr>wd_weights := w\<rparr>, g'))"

definition WienerFilter_new_dbl ::
  "('g \<Rightarrow> int \<times> 'g) \<Rightarrow> int \<Rightarrow> nat \<Rightarrow> double \<Rightarrow> double \<Rightarrow> 'g
     \<Rightarrow> error + (WienerFilter_dbl \<times> 'g)" where
  "WienerFilter_new_dbl rnd RAND_MAX filterOrder mu lambda g =
     (if filterOrder = 0 then Inl Invalid_argument
      else if d_less_eq mu (Finite 0) \<or> d_less_eq (Finite 1) mu then Inl Invalid_argument
      else if d_less_eq lambda (Finite 0) \<or> d_less (Finite 1) lambda then Inl Invalid_argument
      else Inr (WienerFilter_reset_dbl rnd RAND_MAX
             \<lparr>wd_filterOrder = filterOrder, wd_mu = mu, wd_lambda = lambda, wd_weights = []\<rparr> g))"

record OutlierDetection_dbl =
  dd_detectionMethod :: DetectionMethod
  dd_interpolationMethod :: InterpolationMethod
  dd_threshold :: double
  dd_windowSize :: nat
  dd_arOrder :: nat

definition OutlierDetection_new_dbl ::
  "DetectionMethod \<Rightarrow> InterpolationMethod \<Rightarrow> double \<Rightarrow> nat \<Rightarrow> error + OutlierDetection_dbl" where
  "OutlierDetection_new_dbl detectionMethod interpolationMethod threshold windowSize =
     (if d_less_eq threshold (Finite 0) then Inl Invalid_argument
      else if windowSize = 0 \<or> windowSize mod 2 = 0 then Inl Invalid_argument
      else Inr \<lparr>dd_detectionMethod = detectionMethod,
                dd_interpolationMethod = interpolationMethod,
                dd_threshold = threshold, dd_windowSize = windowSize, dd_arOrder = 5\<rparr>)"

section \<open>Savitzky-Golay coefficients on doubles\<close>

text \<open>
  \<open>SavgolFilter\<close> once more, statement by statement as above, with every \<open>double\<close> a
  \<open>double\<close> and every operation that of the processor.
\<close>

record SavgolFilter_dbl =
  sd_windowSize :: nat
  sd_polyOrder :: nat
  sd_coefficients :: "double list"

definition findMaxRow_dbl :: "double list list \<Rightarrow> nat \<Rightarrow> nat \<Rightarrow> nat" where
  "findMaxRow_dbl matrix n i =
     fold (\<lambda>k maxRow. if d_less (d_abs (matrix ! maxRow ! i)) (d_abs (matrix ! k ! i))
                       then k else maxRow)
       [i + 1..<n] i"

definition eliminateRow_dbl ::
  "fpu \<Rightarrow> nat \<Rightarrow> nat \<Rightarrow> nat \<Rightarrow> double list list \<times> double list
     \<Rightarrow> double list list \<times> double list" where
  "eliminateRow_dbl fp n i k s =
     (case s of (matrix, rhs) \<Rightarrow>
        let factor = d_div fp (matrix ! k ! i) (matrix ! i ! i);
            matrix = fold (\<lambda>j m. m[k := (m ! k)[j := d_sub fp (m ! k ! j)
                                                       (d_mul fp factor (m ! i ! j))]])
                       [i..<n] matrix;
            rhs = rhs[k := d_sub fp (rhs ! k) (d_mul fp factor (rhs ! i))]
        in (matrix, rhs))"

fun forwardElimination_dbl ::
  "fpu \<Rightarrow> nat \<Rightarrow> nat list \<Rightarrow> double list list \<times> double list
     \<Rightarrow> error + (double list list \<times> double list)" where
  "forwardElimination_dbl fp n [] s = Inr s"
| "forwardElimination_dbl fp n (i # is) s =
     (case s of (matrix, rhs) \<Rightarrow>
        let maxRow = findMaxRow_dbl matrix n i;
            matrix = (if maxRow \<noteq> i then swapRows matrix i maxRow else matrix);
            rhs = (if maxRow \<noteq> i then swapRows rhs i maxRow else rhs)
        in if d_less (d_abs (matrix ! i ! i)) (f_1e_12 fp) then Inl Runtime_error
           else forwardElimination_dbl fp n is
                  (fold (eliminateRow_dbl fp n i) [i + 1..<n] (matrix, rhs)))"

definition backSubstitution_dbl ::
  "fpu \<Rightarrow> nat \<Rightarrow> double list list \<Rightarrow> double list \<Rightarrow> double list" where
  "backSubstitution_dbl fp n matrix rhs =
     fold (\<lambda>i solution.
             let solution = solution[i := rhs ! i];
                 solution = fold (\<lambda>j s. s[i := d_sub fp (s ! i) (d_mul fp (matrix ! i ! j) (s ! j))])
                              [i + 1..<n] solution
             in solution[i := d_div fp (solution ! i) (matrix ! i ! i)])
       (rev [0..<n]) (replicate n (Finite 0))"

definition gaussElimination_dbl ::
  "fpu \<Rightarrow> double list list \<Rightarrow> double list \<Rightarrow> error + double list" where
  "gaussElimination_dbl fp matrix rhs =
     (let n = length matrix
      in case forwardElimination_dbl fp n [0..<n] (matrix, rhs) of
           Inl e \<Rightarrow> Inl e
         | Inr (m, r) \<Rightarrow> Inr (backSubstitution_dbl fp n m r))"

definition momentMatrix_dbl :: "fpu \<Rightarrow> nat \<Rightarrow> nat \<Rightarrow> double list list" where
  "momentMatrix_dbl fp halfWindow polyOrder =
     map (\<lambda>i. map (\<lambda>j. fold (\<lambda>k sum. d_add fp sum (d_pow fp k (i + j)))
                            [- int halfWindow..int halfWindow] (Finite 0))
                 [0..<polyOrder + 1])
       [0..<polyOrder + 1]"

definition calculateCoefficients_dbl :: "fpu \<Rightarrow> SavgolFilter_dbl \<Rightarrow> error + SavgolFilter_dbl" where
  "calculateCoefficients_dbl fp f =
     (let halfWindow = sd_windowSize f div 2;
          matrix = momentMatrix_dbl fp halfWindow (sd_polyOrder f);
          rhs = (replicate (sd_polyOrder f + 1) (Finite 0))[0 := Finite 1]
      in case gaussElimination_dbl fp matrix rhs of
           Inl e \<Rightarrow> Inl e
         | Inr polyCoeffs \<Rightarrow>
             Inr (f\<lparr>sd_coefficients :=
                     map (\<lambda>i. let k = int i - int halfWindow
                               in fold (\<lambda>j coeff. d_add fp coeff
                                                     (d_mul fp (polyCoeffs ! j) (d_pow fp k j)))
                                    [0..<sd_polyOrder f + 1] (Finite 0))
                       [0..<sd_windowSize f]\<rparr>))"

definition SavgolFilter_new_dbl :: "fpu \<Rightarrow> nat \<Rightarrow> nat \<Rightarrow> error + SavgolFilter_dbl" where
  "SavgolFilter_new_dbl fp windowSize polyOrder =
     (if windowSize = 0 \<or> windowSize mod 2 = 0 then Inl Invalid_argument
      else if polyOrder \<ge> windowSize then Inl Invalid_argument
      else calculateCoefficients_dbl fp
             \<lparr>sd_windowSize = windowSize, sd_polyOrder = polyOrder, sd_coefficients = []\<rparr>)"

definition readAt_dbl :: "double list \<Rightarrow> int \<Rightarrow> error + double" where
  "readAt_dbl input k =
     (if 0 \<le> k \<and> k < int (length input) then Inr (input ! nat k) else Inl Out_of_bounds)"

definition getReflectedValue_dbl :: "double list \<Rightarrow> int \<Rightarrow> error + double" where
  "getReflectedValue_dbl input index =
     (if index < 0 then readAt_dbl input (- index)
      else if index \<ge> int (length input)
      then (let reflectedIndex = 2 * int (length input) - 2 - index
            in if reflectedIndex < 0 then readAt_dbl input 0 else readAt_dbl input reflectedIndex)
      else readAt_dbl input index)"

fun applyFilterLoop_dbl ::
  "fpu \<Rightarrow> SavgolFilter_dbl \<Rightarrow> double list \<Rightarrow> nat \<Rightarrow> nat list \<Rightarrow> double \<Rightarrow> error + double" where
  "applyFilterLoop_dbl fp f input centerIndex [] result = Inr result"
| "applyFilterLoop_dbl fp f input centerIndex (i # is) result =
     (let halfWindow = sd_windowSize f div 2;
          signalIndex = int centerIndex - int halfWindow + int i
      in case getReflectedValue_dbl input signalIndex of
           Inl e \<Rightarrow> Inl e
         | Inr v \<Rightarrow>
             applyFilterLoop_dbl fp f input centerIndex is
               (d_add fp result (d_mul fp (sd_coefficients f ! i) v)))"

definition applyFilter_dbl :: "fpu \<Rightarrow> SavgolFilter_dbl \<Rightarrow> double list \<Rightarrow> nat \<Rightarrow> error + double" where
  "applyFilter_dbl fp f input centerIndex =
     applyFilterLoop_dbl fp f input centerIndex [0..<sd_windowSize f] (Finite 0)"

fun savgolLoop_dbl ::
  "fpu \<Rightarrow> SavgolFilter_dbl \<Rightarrow> double list \<Rightarrow> nat list \<Rightarrow> double list \<Rightarrow> error + double list" where
  "savgolLoop_dbl fp f input [] output = Inr output"
| "savgolLoop_dbl fp f input (i # is) output =
     (case applyFilter_dbl fp f input i of
        Inl e \<Rightarrow> Inl e
      | Inr v \<Rightarrow> savgolLoop_dbl fp f input is (output @ [v]))"

definition SavgolFilter_process_dbl ::
  "fpu \<Rightarrow> SavgolFilter_dbl \<Rightarrow> double list \<Rightarrow> error + double list" where
  "SavgolFilter_process_dbl fp f input =
     (if input = [] then Inr [] else savgolLoop_dbl fp f input [0..<length input] [])"

section \<open>Notions for the proofs about the linear solve\<close>

text \<open>
  Three predicates used only to state lemmas about \<open>gaussElimination\<close>: the matrix is
  \<open>n\<close> by \<open>n\<close>; the vector \<open>x\<close> satisfies every equation of the system; and the entries
  left of the diagonal are zero in the first \<open>i\<close> columns.
\<close>

definition square :: "nat \<Rightarrow> real list list \<Rightarrow> bool" where
  "square n m \<longleftrightarrow> length m = n \<and> (\<forall>k<n. length (m ! k) = n)"

definition solves :: "nat \<Rightarrow> real list list \<Rightarrow> real list \<Rightarrow> real list \<Rightarrow> bool" where
  "solves n m r x \<longleftrightarrow> (\<forall>k<n. (\<Sum>j<n. m ! k ! j * x ! j) = r ! k)"

definition triangular :: "nat \<Rightarrow> nat \<Rightarrow> real list list \<Rightarrow> bool" where
  "triangular n i m \<longleftrightarrow> (\<forall>k<n. \<forall>c. c < k \<and> c < i \<longrightarrow> m ! k ! c = 0)"

text \<open>
  Two predicates used only to state lemmas about the solve on doubles: the matrix is \<open>n\<close>
  by \<open>n\<close>, and two of its rows hold an infinity or NaN in the last column.
\<close>

definition square_dbl :: "nat \<Rightarrow> double list list \<Rightarrow> bool" where
  "square_dbl n m \<longleftrightarrow> length m = n \<and> (\<forall>k<n. length (m ! k) = n)"

definition two_spoilt_rows :: "nat \<Rightarrow> double list list \<Rightarrow> bool" where
  "two_spoilt_rows n m \<longleftrightarrow>
     (\<exists>p q. p < q \<and> q < n \<and> \<not> d_isfinite (m ! p ! (n - 1)) \<and> \<not> d_isfinite (m ! q ! (n - 1)))"


section \<open>Median filter: the padded window and the worked example\<close>

text \<open>For an odd window size every padded window has exactly that many entries.\<close>

lemma medianWindow_length:
  assumes "odd (mf_windowSize f)" "index < length input"
  shows "length (medianWindow f input index) = mf_windowSize f"
proof -
  obtain h where h: "mf_windowSize f = 2 * h + 1"
    using assms(1) by (auto elim: oddE)
  show ?thesis
    using assms(2) by (auto simp: medianWindow_def h Let_def min_def)
qed

lemma MedianFilter_process_length: "length (MedianFilter_process f input) = length input"
  by (simp add: MedianFilter_process_def)

text \<open>
  Claim C7. The median filter constructed with window size 3 maps \<open>[1,2,100,2,1]\<close> to
  \<open>[1,2,2,2,1]\<close>; its five windows are the clipped windows padded with a copy of the nearest
  boundary sample to three entries each, and the median is the middle of the sorted window.
\<close>

theorem median_filter_example:
  "MedianFilter_new 3 = Inr \<lparr>mf_windowSize = 3\<rparr>
   \<and> map (medianWindow \<lparr>mf_windowSize = 3\<rparr> [1, 2, 100, 2, 1]) [0, 1, 2, 3, 4]
       = [[1, 1, 2], [1, 2, 100], [2, 100, 2], [100, 2, 1], [2, 1, 1]]
   \<and> MedianFilter_process \<lparr>mf_windowSize = 3\<rparr> [1, 2, 100, 2, 1] = [1, 2, 2, 2, 1]"
proof (intro conjI)
  show "MedianFilter_new 3 = Inr \<lparr>mf_windowSize = 3\<rparr>"
    by (simp add: MedianFilter_new_def setWindowSize_def IsValidWindowSize_def)
  show w: "map (medianWindow \<lparr>mf_windowSize = 3\<rparr> [1, 2, 100, 2, 1]) [0, 1, 2, 3, 4]
       = [[1, 1, 2], [1, 2, 100], [2, 100, 2], [100, 2, 1], [2, 1, 1]]"
    by (simp add: medianWindow_def upt_rec)
  have u: "[0..<length [1, 2, 100, 2, 1::real]] = [0, 1, 2, 3, 4]"
    by (simp add: upt_rec)
  have "MedianFilter_process \<lparr>mf_windowSize = 3\<rparr> [1, 2, 100, 2, 1]
        = map median (map (medianWindow \<lparr>mf_windowSize = 3\<rparr> [1, 2, 100, 2, 1]) [0, 1, 2, 3, 4])"
    unfolding MedianFilter_process_def computeWindowMedian_def u by simp
  also have "\<dots> = [1, 2, 2, 2, 1]"
    unfolding w by (simp add: median_def)
  finally show "MedianFilter_process \<lparr>mf_windowSize = 3\<rparr> [1, 2, 100, 2, 1] = [1, 2, 2, 2, 1]" .
qed

section \<open>Quality metrics on mismatched or empty signals\<close>

text \<open>
  Claim C4 as stated, refuted: on signals of lengths 1 and 2 \<open>calculateSNR\<close> returns 0.0,
  not 100.0.
\<close>

theorem metrics_snr_counterexample:
  "calculateSNR [1] [1, 2] = 0 \<and> calculateSNR [1] [1, 2] \<noteq> 100"
  by (simp add: calculateSNR_def)

text \<open>
  Claim C4, amended. When the lengths differ or either signal is empty, all three metrics
  return 0.0: \<open>calculateMSE\<close>, \<open>calculateCorrelation\<close> and \<open>calculateSNR\<close> alike.
\<close>

theorem metrics_neutral_values:
  assumes "length a \<noteq> length b \<or> a = [] \<or> b = []"
  shows "calculateMSE a b = 0 \<and> calculateCorrelation a b = 0 \<and> calculateSNR a b = 0"
proof -
  from assms have g: "length a \<noteq> length b \<or> a = []" by auto
  then show ?thesis
    by (simp add: calculateMSE_def calculateCorrelation_def calculateSNR_def)
qed

theorem metrics_neutral_values_witness:
  "length [1::real] \<noteq> length [1, 2::real]
   \<and> calculateMSE [1] [1, 2] = 0 \<and> calculateCorrelation [1] [1, 2] = 0
   \<and> calculateSNR [1] [1, 2] = 0"
  using metrics_neutral_values [of "[1]" "[1, 2]"] by simp

section \<open>The MAD-based detector and linear interpolation\<close>

lemma fold_flag_upt:
  "k \<le> n \<Longrightarrow>
   fold (\<lambda>i out. if P i then out[i := True] else out) [0..<k] (replicate n False)
     = map P [0..<k] @ replicate (n - k) False"
proof (induction k)
  case 0
  then show ?case by simp
next
  case (Suc k)
  then have k: "k < n" by simp
  have r: "replicate (n - k) False = False # replicate (n - Suc k) False"
    using k by (cases "n - k") auto
  show ?case
    using Suc k by (simp add: r list_update_append)
qed

lemma detectMADBased_map: "detectMADBased f input = map (madFlagRule f input) [0..<length input]"
proof -
  have "detectMADBased f input
        = fold (\<lambda>i out. if madFlagRule f input i then out[i := True] else out)
            [0..<length input] (replicate (length input) False)"
    unfolding detectMADBased_def madFlagRule_def Let_def
    by (rule arg_cong [where f = "\<lambda>g. fold g _ _"]) (auto simp: fun_eq_iff)
  then show ?thesis by (simp add: fold_flag_upt)
qed

lemma detectMADBased_spike:
  "detectMADBased
     \<lparr>od_detectionMethod = MAD_BASED, od_interpolationMethod = LINEAR, od_threshold = 3,
      od_windowSize = 5, od_arOrder = 5\<rparr> [0, 0, 0, 10, 0, 0, 0]
   = [False, False, False, False, False, False, False]"
  by (simp add: detectMADBased_def median_def mad_def clippedWindow_def upt_rec)

lemma interpolateLinear_no_flags:
  "interpolateLinear [0, 0, 0, 10, 0, 0, 0] [False, False, False, False, False, False, False]
   = [0, 0, 0, 10, 0, 0, 0]"
  by (simp add: interpolateLinear_def upt_rec)

lemma process_spike:
  "OutlierDetection_process
     \<lparr>od_detectionMethod = MAD_BASED, od_interpolationMethod = LINEAR, od_threshold = 3,
      od_windowSize = 5, od_arOrder = 5\<rparr> [0, 0, 0, 10, 0, 0, 0]
   = [0, 0, 0, 10, 0, 0, 0]"
  by (simp add: OutlierDetection_process_def detectOutliers_def detectMADBased_spike
      interpolateLinear_no_flags)

text \<open>
  Claim C2 as stated, refuted: with threshold 3.0 and window 5 on \<open>[0,0,0,10,0,0,0]\<close> the
  detector does not flag index 3 (the MAD of its window \<open>[0,0,10,0,0]\<close> is zero), and
  \<open>process\<close> leaves the value 10 there.
\<close>

theorem mad_detector_counterexample:
  "detectMADBased
     \<lparr>od_detectionMethod = MAD_BASED, od_interpolationMethod = LINEAR, od_threshold = 3,
      od_windowSize = 5, od_arOrder = 5\<rparr> [0, 0, 0, 10, 0, 0, 0] ! 3 = False
   \<and> OutlierDetection_process
       \<lparr>od_detectionMethod = MAD_BASED, od_interpolationMethod = LINEAR, od_threshold = 3,
        od_windowSize = 5, od_arOrder = 5\<rparr> [0, 0, 0, 10, 0, 0, 0] ! 3 = 10"
  by (simp add: detectMADBased_spike process_spike)

text \<open>
  Claim C2, amended. The detector constructed with threshold 3.0 and window size 5 flags no
  index of \<open>[0,0,0,10,0,0,0]\<close>, since every window there has MAD zero, and \<open>process\<close>
  returns the input unchanged; were index 3 alone flagged, linear interpolation would replace
  its value with 0.0. The flagging rule is the stated one, for every detector and signal:
  index \<open>i\<close> is flagged exactly when the clipped window has at least 3 samples, its MAD is
  positive and \<open>|input[i] - median| > threshold * MAD\<close>.
\<close>

theorem mad_detector_example:
  "OutlierDetection_new MAD_BASED LINEAR 3 5
     = Inr \<lparr>od_detectionMethod = MAD_BASED, od_interpolationMethod = LINEAR, od_threshold = 3,
            od_windowSize = 5, od_arOrder = 5\<rparr>
   \<and> detectMADBased
       \<lparr>od_detectionMethod = MAD_BASED, od_interpolationMethod = LINEAR, od_threshold = 3,
        od_windowSize = 5, od_arOrder = 5\<rparr> [0, 0, 0, 10, 0, 0, 0]
       = [False, False, False, False, False, False, False]
   \<and> OutlierDetection_process
       \<lparr>od_detectionMethod = MAD_BASED, od_interpolationMethod = LINEAR, od_threshold = 3,
        od_windowSize = 5, od_arOrder = 5\<rparr> [0, 0, 0, 10, 0, 0, 0]
       = [0, 0, 0, 10, 0, 0, 0]
   \<and> interpolateLinear [0, 0, 0, 10, 0, 0, 0] [False, False, False, True, False, False, False]
       = [0, 0, 0, 0, 0, 0, 0]
   \<and> (\<forall>f input. detectMADBased f input = map (madFlagRule f input) [0..<length input])"
proof (intro conjI allI)
  show "OutlierDetection_new MAD_BASED LINEAR 3 5
     = Inr \<lparr>od_detectionMethod = MAD_BASED, od_interpolationMethod = LINEAR, od_threshold = 3,
            od_windowSize = 5, od_arOrder = 5\<rparr>"
    by (simp add: OutlierDetection_new_def)
  show "interpolateLinear [0, 0, 0, 10, 0, 0, 0] [False, False, False, True, False, False, False]
       = [0, 0, 0, 0, 0, 0, 0]"
    by (simp add: interpolateLinear_def findNearestNormalPoints_def linearInterpolate_def upt_rec)
qed (rule detectMADBased_spike process_spike detectMADBased_map)+

section \<open>The LMS pass of the adaptive predictive filter\<close>

lemma shift_fold:
  assumes "length d = k + m" "0 < k"
  shows "length (fold (\<lambda>i d. d[i := d ! (i - Suc 0)]) (rev [k..<k + m]) d) = k + m
   \<and> (\<forall>j<k + m. fold (\<lambda>i d. d[i := d ! (i - Suc 0)]) (rev [k..<k + m]) d ! j
              = (if k \<le> j then d ! (j - Suc 0) else d ! j))"
proof -
  define F where "F = (\<lambda>xs. fold (\<lambda>i d. d[i := d ! (i - Suc 0)]) (rev xs) d)"
  have F_Cons: "F (i # xs) = (F xs)[i := F xs ! (i - Suc 0)]" for i xs
    by (simp add: F_def)
  have F_Nil: "F [] = d"
    by (simp add: F_def)
  have "length d = k + m \<Longrightarrow> 0 < k \<Longrightarrow>
        length (F [k..<k + m]) = k + m
        \<and> (\<forall>j<k + m. F [k..<k + m] ! j = (if k \<le> j then d ! (j - Suc 0) else d ! j))"
  proof (induction m arbitrary: k)
    case 0
    then show ?case by (simp add: F_Nil)
  next
    case (Suc m)
    have u: "[k..<k + Suc m] = k # [Suc k..<Suc k + m]"
      by (simp add: upt_conv_Cons)
    from Suc.IH [of "Suc k"] Suc.prems
    have ih: "length (F [Suc k..<Suc (k + m)]) = Suc (k + m)"
      "\<And>j. j < Suc (k + m) \<Longrightarrow> F [Suc k..<Suc (k + m)] ! j
                = (if Suc k \<le> j then d ! (j - Suc 0) else d ! j)"
      by simp_all
    show ?case
      unfolding u F_Cons using Suc.prems
      by (auto simp: ih nth_list_update simp del: upt_Suc)
  qed
  then show ?thesis
    using assms unfolding F_def by blast
qed

lemma shiftDelay_eq:
  assumes "length d = p"
  shows "shiftDelay p d x = take p (x # d)"
proof (cases "p = 0")
  case True
  then show ?thesis using assms by (simp add: shiftDelay_def)
next
  case False
  then have m: "p = Suc 0 + (p - 1)" by auto
  from shift_fold [of d "Suc 0" "p - 1"] assms False
  have l: "length (fold (\<lambda>i d. d[i := d ! (i - Suc 0)]) (rev [Suc 0..<p]) d) = p"
    and n: "\<And>j. j < p \<Longrightarrow> fold (\<lambda>i d. d[i := d ! (i - Suc 0)]) (rev [Suc 0..<p]) d ! j
              = (if Suc 0 \<le> j then d ! (j - Suc 0) else d ! j)"
    by simp_all
  show ?thesis
    unfolding shiftDelay_def
    by (rule nth_equalityI) (auto simp: l n assms nth_list_update nth_Cons split: nat.splits)
qed

lemma fold_add_upt: "fold (\<lambda>i y. y + g i) [0..<n] (a::real) = a + (\<Sum>i<n. g i)"
  by (induction n) (simp_all add: algebra_simps)

lemma fold_update_upt:
  "k \<le> length w \<Longrightarrow>
   fold (\<lambda>i w. w[i := h i (w ! i)]) [0..<k] w = map (\<lambda>i. h i (w ! i)) [0..<k] @ drop k w"
proof (induction k)
  case 0
  then show ?case by simp
next
  case (Suc k)
  then have k: "k < length w" by simp
  have d: "drop k w = w ! k # drop (Suc k) w"
    using k by (simp add: Cons_nth_drop_Suc)
  show ?case using Suc k
    by (simp add: d list_update_append nth_append)
qed

text \<open>Closed forms of the three inner loops of \<open>processLMS\<close>.\<close>

lemma filterOutput_eq:
  "filterOutput p w d = (\<Sum>i<p. w ! i * d ! i)"
  by (simp add: filterOutput_def fold_add_upt)

lemma updateWeights_eq:
  "length w = p \<Longrightarrow> updateWeights p mu err d w = map (\<lambda>i. w ! i + mu * err * d ! i) [0..<p]"
  unfolding updateWeights_def
  using fold_update_upt [of p w "\<lambda>i v. v + mu * err * d ! i"] by simp

lemma desired_cases:
  "n < length input \<Longrightarrow>
   desired input n =
     (if n = 0 then input ! 0
      else if n = length input - 1 then (input ! (n - 1) + input ! n) / 2
      else (input ! (n - 1) + input ! (n + 1)) / 2)"
  by (auto simp: desired_def)

lemma lmsLoop_Suc:
  "lmsLoop f input (Suc n) = lmsStep (wf_filterOrder f) (wf_mu f) input n (lmsLoop f input n)"
  by (simp add: lmsLoop_def)

lemma lmsLoop_lengths:
  assumes "length (wf_weights f) = wf_filterOrder f"
  shows "case lmsLoop f input n of (w, d, out) \<Rightarrow>
           length w = wf_filterOrder f \<and> length d = wf_filterOrder f \<and> length out = n"
proof (induction n)
  case 0
  then show ?case using assms by (simp add: lmsLoop_def)
next
  case (Suc n)
  then show ?case
    by (auto simp: lmsLoop_Suc lmsStep_def Let_def shiftDelay_eq updateWeights_eq
        split: prod.splits)
qed

lemma lmsLoop_output_length: "length (snd (snd (lmsLoop f input n))) = n"
  by (induction n) (auto simp: lmsLoop_def lmsStep_def Let_def split: prod.splits)

lemma lmsLoop_output_prefix:
  "m \<le> n \<Longrightarrow> take m (snd (snd (lmsLoop f input n))) = snd (snd (lmsLoop f input m))"
proof (induction n)
  case 0
  then show ?case by (simp add: lmsLoop_def)
next
  case (Suc n)
  show ?case
  proof (cases "m = Suc n")
    case True
    then show ?thesis using lmsLoop_output_length [of f input "Suc n"] by simp
  next
    case False
    then have "m \<le> n" using Suc.prems by simp
    then have "take m (snd (snd (lmsLoop f input n))) = snd (snd (lmsLoop f input m))"
      by (rule Suc.IH)
    moreover have "snd (snd (lmsLoop f input (Suc n)))
        = snd (snd (lmsLoop f input n)) @ [filterOutput (wf_filterOrder f) (fst (lmsLoop f input n))
             (shiftDelay (wf_filterOrder f) (fst (snd (lmsLoop f input n))) (input ! n))]"
      by (simp add: lmsLoop_Suc lmsStep_def Let_def split: prod.splits)
    ultimately show ?thesis
      using \<open>m \<le> n\<close> lmsLoop_output_length [of f input n] by simp
  qed
qed


text \<open>
  Claim C3 as stated, refuted at both boundaries of \<open>[1, 3]\<close>: at the first sample the
  target is the raw sample itself (1), not its only neighbour (3); at the last sample it is the
  average of the previous sample and the raw sample itself (2), not the neighbour alone (1).
\<close>

theorem lms_counterexample:
  "desired [1, 3] 0 = 1 \<and> desired [1, 3] 0 \<noteq> [1, 3] ! 1
   \<and> desired [1, 3] 1 = 2 \<and> desired [1, 3] 1 \<noteq> [1, 3] ! 0"
  by (simp add: desired_def)

text \<open>
  Claim C3, amended. In the LMS pass, at every sample position \<open>n\<close> of every input (for a
  filter whose weight vector has length \<open>filterOrder\<close>, as every constructed one has), with
  \<open>w\<close>, \<open>d\<close>, \<open>out\<close> the weights, delay buffer and output before the iteration: the delay
  line becomes the new sample followed by the old buffer without its last entry; the emitted
  sample is \<open>y = weights \<cdot> delay\<close> computed with the weights before the update; every weight
  is updated by \<open>weight[i] += mu * (target - y) * delay[i]\<close>; and the target is the average of
  the raw samples before and after \<open>n\<close> in the interior, the raw sample itself at the first
  position, and the average of the previous sample and the raw sample itself at the last.
\<close>

theorem lms_step:
  assumes "n < length input" and "length (wf_weights f) = wf_filterOrder f"
  shows "case lmsLoop f input n of (w, d, out) \<Rightarrow>
     (let delay = take (wf_filterOrder f) (input ! n # d);
          y = (\<Sum>i<wf_filterOrder f. w ! i * delay ! i);
          target = (if n = 0 then input ! 0
                    else if n = length input - 1 then (input ! (n - 1) + input ! n) / 2
                    else (input ! (n - 1) + input ! (n + 1)) / 2)
      in lmsLoop f input (Suc n)
           = (map (\<lambda>i. w ! i + wf_mu f * (target - y) * delay ! i) [0..<wf_filterOrder f],
              delay, out @ [y])
         \<and> fst (WienerFilter_process f input) ! n = y)"
proof -
  obtain w d out where s: "lmsLoop f input n = (w, d, out)"
    by (cases "lmsLoop f input n") auto
  from lmsLoop_lengths [OF assms(2), where input = input and n = n] s
  have len: "length w = wf_filterOrder f" "length d = wf_filterOrder f" "length out = n"
    by simp_all
  define delay where "delay = take (wf_filterOrder f) (input ! n # d)"
  define y where "y = (\<Sum>i<wf_filterOrder f. w ! i * delay ! i)"
  have step: "lmsLoop f input (Suc n)
        = (map (\<lambda>i. w ! i + wf_mu f * (desired input n - y) * delay ! i) [0..<wf_filterOrder f],
           delay, out @ [y])"
    by (simp add: lmsLoop_Suc s lmsStep_def Let_def shiftDelay_eq len filterOutput_eq
        updateWeights_eq delay_def y_def)
  have ne: "input \<noteq> []" using assms(1) by auto
  have "fst (WienerFilter_process f input) = snd (snd (lmsLoop f input (length input)))"
    using ne by (simp add: WienerFilter_process_def processLMS_def split: prod.splits)
  moreover have "take (Suc n) (snd (snd (lmsLoop f input (length input))))
        = snd (snd (lmsLoop f input (Suc n)))"
    using assms(1) by (intro lmsLoop_output_prefix) simp
  ultimately have "fst (WienerFilter_process f input) ! n = snd (snd (lmsLoop f input (Suc n))) ! n"
    by (metis lessI nth_take)
  then have out: "fst (WienerFilter_process f input) ! n = y"
    by (simp add: step len nth_append)
  show ?thesis
    using step out desired_cases [OF assms(1)]
    by (simp add: s Let_def delay_def y_def)
qed

lemma lms_example_state:
  "lmsLoop \<lparr>wf_filterOrder = Suc (Suc 0), wf_mu = 1 / 2, wf_lambda = 1, wf_weights = [0, 0]\<rparr> [1, 1, 3] (Suc 0)
   = ([1 / 2, 0], [1, 0], [0])"
  by (simp add: lmsLoop_def lmsStep_def shiftDelay_def filterOutput_def desired_def
      updateWeights_def upt_rec eval_nat_numeral)

theorem lms_step_witness:
  "Suc 0 < length [1, 1, 3 :: real]
   \<and> lmsLoop \<lparr>wf_filterOrder = Suc (Suc 0), wf_mu = 1 / 2, wf_lambda = 1, wf_weights = [0, 0]\<rparr> [1, 1, 3]
         (Suc (Suc 0))
       = ([5 / 4, 3 / 4], [1, 1], [0, 1 / 2])
   \<and> fst (WienerFilter_process
            \<lparr>wf_filterOrder = Suc (Suc 0), wf_mu = 1 / 2, wf_lambda = 1, wf_weights = [0, 0]\<rparr> [1, 1, 3])
         ! Suc 0
       = 1 / 2"
proof -
  have a: "Suc 0 < length [1, 1, 3 :: real]" by simp
  have b: "length (wf_weights \<lparr>wf_filterOrder = Suc (Suc 0), wf_mu = 1 / 2, wf_lambda = 1,
             wf_weights = [0, 0]\<rparr>)
           = wf_filterOrder \<lparr>wf_filterOrder = Suc (Suc 0), wf_mu = 1 / 2, wf_lambda = 1,
               wf_weights = [0, 0]\<rparr>"
    by simp
  show ?thesis
    using lms_step [OF a b]
    by (simp add: lms_example_state lessThan_Suc upt_rec Let_def)
qed

section \<open>The weight vector as the state of the adaptive predictive filter\<close>

lemma WienerFilter_reset_fields:
  "wf_filterOrder (fst (WienerFilter_reset rnd rm f g)) = wf_filterOrder f
   \<and> wf_mu (fst (WienerFilter_reset rnd rm f g)) = wf_mu f
   \<and> wf_lambda (fst (WienerFilter_reset rnd rm f g)) = wf_lambda f"
  by (simp add: WienerFilter_reset_def split: prod.splits)

lemma reset_fold_length:
  "length (fst (fold (\<lambda>i (w, g). let (r, g') = rnd g in (w[i := h r], g')) xs (w0, g0)))
   = length w0"
  by (induction xs arbitrary: w0 g0) (auto split: prod.splits)

lemma WienerFilter_reset_weights_length:
  "length (wf_weights (fst (WienerFilter_reset rnd rm f g))) = wf_filterOrder f"
proof -
  have "length (fst (fold (\<lambda>i (w, g). let (r, g') = rnd g
                in (w[i := (1 / 1000) * (real_of_int r / real_of_int rm - 1 / 2)], g'))
          [0..<wf_filterOrder f] (replicate (wf_filterOrder f) 0, g))) = wf_filterOrder f"
    using reset_fold_length [of rnd "\<lambda>r. (1 / 1000) * (real_of_int r / real_of_int rm - 1 / 2)"
        "[0..<wf_filterOrder f]" "replicate (wf_filterOrder f) 0" g]
    by simp
  then show ?thesis
    by (auto simp: WienerFilter_reset_def split: prod.splits)
qed

lemma WienerFilter_reset_config_only:
  "wf_filterOrder f = wf_filterOrder f' \<Longrightarrow>
   WienerFilter_reset rnd rm f g
   = (f\<lparr>wf_weights := wf_weights (fst (WienerFilter_reset rnd rm f' g))\<rparr>,
      snd (WienerFilter_reset rnd rm f' g))"
  by (simp add: WienerFilter_reset_def split: prod.splits)

lemma setParameters_eq_new:
  "WienerFilter_setParameters rnd rm f p mu lam g = WienerFilter_new rnd rm p mu lam g"
  by (simp add: WienerFilter_setParameters_def WienerFilter_new_def WienerFilter_reset_def
      split: prod.splits)

lemma process_only_weights:
  "snd (WienerFilter_process f x) = f\<lparr>wf_weights := wf_weights (snd (WienerFilter_process f x))\<rparr>"
  by (simp add: WienerFilter_process_def processLMS_def split: prod.splits)

lemma process_final_weights:
  "wf_weights (snd (WienerFilter_process f x)) = fst (lmsLoop f x (length x))"
  by (cases "x = []") (simp_all add: WienerFilter_process_def processLMS_def lmsLoop_def split: prod.splits)

lemma lmsLoop_start: "lmsLoop f x 0 = (wf_weights f, replicate (wf_filterOrder f) 0, [])"
  by (simp add: lmsLoop_def)


lemma WienerFilter_new_valid:
  assumes "WienerFilter_new rnd rm p mu lam g = Inr (f, g')"
  shows "p \<noteq> 0 \<and> 0 < mu \<and> mu < 1 \<and> 0 < lam \<and> lam \<le> 1
         \<and> wf_filterOrder f = p \<and> wf_mu f = mu \<and> wf_lambda f = lam
         \<and> length (wf_weights f) = p"
proof -
  from assms have v: "p \<noteq> 0" "0 < mu" "mu < 1" "0 < lam" "lam \<le> 1"
    by (auto simp: WienerFilter_new_def split: if_splits)
  with assms have r: "WienerFilter_reset rnd rm
      \<lparr>wf_filterOrder = p, wf_mu = mu, wf_lambda = lam, wf_weights = []\<rparr> g = (f, g')"
    by (simp add: WienerFilter_new_def)
  from WienerFilter_reset_fields [of rnd rm
      "\<lparr>wf_filterOrder = p, wf_mu = mu, wf_lambda = lam, wf_weights = []\<rparr>" g]
    WienerFilter_reset_weights_length [of rnd rm
      "\<lparr>wf_filterOrder = p, wf_mu = mu, wf_lambda = lam, wf_weights = []\<rparr>" g]
  show ?thesis using v by (simp add: r)
qed

lemma reset_eq_new:
  assumes "wf_filterOrder f \<noteq> 0" "0 < wf_mu f" "wf_mu f < 1" "0 < wf_lambda f" "wf_lambda f \<le> 1"
  shows "WienerFilter_new rnd rm (wf_filterOrder f) (wf_mu f) (wf_lambda f) g
         = Inr (WienerFilter_reset rnd rm f g)"
proof -
  have "WienerFilter_reset rnd rm f g
        = WienerFilter_reset rnd rm
            \<lparr>wf_filterOrder = wf_filterOrder f, wf_mu = wf_mu f, wf_lambda = wf_lambda f,
             wf_weights = []\<rparr> g"
    by (cases f) (simp add: WienerFilter_reset_def split: prod.splits)
  then show ?thesis using assms by (simp add: WienerFilter_new_def)
qed

text \<open>
  Claim C8. For a filter with a valid configuration: a \<open>process\<close> call changes the weights
  and nothing else, and leaves in them the result of the sample-by-sample loop; the loop of
  the next call starts from exactly those weights, with a fresh zero delay buffer;
  \<open>setParameters\<close> yields the very filter and generator state the constructor yields for the
  same arguments, and \<open>reset()\<close> yields what the constructor yields for the filter's own
  parameters, so that the two following \<open>process\<close> calls agree with those of a newly
  constructed filter.
\<close>

theorem wiener_weights_state:
  assumes "wf_filterOrder f \<noteq> 0" "0 < wf_mu f" "wf_mu f < 1" "0 < wf_lambda f" "wf_lambda f \<le> 1"
  shows "snd (WienerFilter_process f x1) = f\<lparr>wf_weights := fst (lmsLoop f x1 (length x1))\<rparr>
     \<and> (\<forall>n. lmsLoop f x1 (Suc n) = lmsStep (wf_filterOrder f) (wf_mu f) x1 n (lmsLoop f x1 n))
     \<and> lmsLoop (snd (WienerFilter_process f x1)) x2 0
           = (fst (lmsLoop f x1 (length x1)), replicate (wf_filterOrder f) 0, [])
     \<and> WienerFilter_setParameters rnd rm f p mu lam g = WienerFilter_new rnd rm p mu lam g
     \<and> WienerFilter_new rnd rm (wf_filterOrder f) (wf_mu f) (wf_lambda f) g
           = Inr (WienerFilter_reset rnd rm f g)
     \<and> (WienerFilter_setParameters rnd rm f p mu lam g = Inr (fa, ga)
          \<longrightarrow> WienerFilter_new rnd rm p mu lam g = Inr (fb, gb)
          \<longrightarrow> WienerFilter_process fa x1 = WienerFilter_process fb x1
              \<and> WienerFilter_process (snd (WienerFilter_process fa x1)) x2
                  = WienerFilter_process (snd (WienerFilter_process fb x1)) x2)"
proof (intro conjI allI impI)
  have "snd (WienerFilter_process f x1)
        = f\<lparr>wf_weights := wf_weights (snd (WienerFilter_process f x1))\<rparr>"
    by (rule process_only_weights)
  then show w: "snd (WienerFilter_process f x1)
        = f\<lparr>wf_weights := fst (lmsLoop f x1 (length x1))\<rparr>"
    by (simp add: process_final_weights)
  show "lmsLoop (snd (WienerFilter_process f x1)) x2 0
           = (fst (lmsLoop f x1 (length x1)), replicate (wf_filterOrder f) 0, [])"
    unfolding w by (simp add: lmsLoop_start)
  show "lmsLoop f x1 (Suc n) = lmsStep (wf_filterOrder f) (wf_mu f) x1 n (lmsLoop f x1 n)" for n
    by (rule lmsLoop_Suc)
  show s: "WienerFilter_setParameters rnd rm f p mu lam g = WienerFilter_new rnd rm p mu lam g"
    by (rule setParameters_eq_new)
  show "WienerFilter_new rnd rm (wf_filterOrder f) (wf_mu f) (wf_lambda f) g
           = Inr (WienerFilter_reset rnd rm f g)"
    using assms by (rule reset_eq_new)
  assume a: "WienerFilter_setParameters rnd rm f p mu lam g = Inr (fa, ga)"
    and b: "WienerFilter_new rnd rm p mu lam g = Inr (fb, gb)"
  from a b s have e: "fa = fb" by simp
  show "WienerFilter_process fa x1 = WienerFilter_process fb x1"
    by (simp add: e)
  show "WienerFilter_process (snd (WienerFilter_process fa x1)) x2
                  = WienerFilter_process (snd (WienerFilter_process fb x1)) x2"
    by (simp add: e)
qed

text \<open>
  A run: order 1, step 1/2, a generator that counts up. Two calls on \<open>[1, 1]\<close> give
  different outputs because the second starts from the weights the first left; reconfiguring
  or resetting brings back the freshly constructed filter.
\<close>

lemma wiener_example_loop:
  "lmsLoop \<lparr>wf_filterOrder = Suc 0, wf_mu = 1 / 2, wf_lambda = 1, wf_weights = [0]\<rparr> [1, 1]
     (Suc (Suc 0)) = ([3 / 4], [1], [0, 1 / 2])"
  by (simp add: lmsLoop_def lmsStep_def shiftDelay_def filterOutput_def desired_def
      updateWeights_def upt_rec)

lemma wiener_example_second_call:
  "lmsLoop \<lparr>wf_filterOrder = Suc 0, wf_mu = 1 / 2, wf_lambda = 1, wf_weights = [3 / 4]\<rparr> [1, 1]
     (Suc (Suc 0)) = ([15 / 16], [1], [3 / 4, 7 / 8])"
  by (simp add: lmsLoop_def lmsStep_def shiftDelay_def filterOutput_def desired_def
      updateWeights_def upt_rec)

lemma wiener_example_new:
  "WienerFilter_new (\<lambda>g :: nat. (int g, Suc g)) 4 (Suc 0) (1 / 2) 1 2
   = Inr (\<lparr>wf_filterOrder = Suc 0, wf_mu = 1 / 2, wf_lambda = 1, wf_weights = [0]\<rparr>, 3)"
  by (simp add: WienerFilter_new_def WienerFilter_reset_def)

theorem wiener_weights_state_witness:
  "WienerFilter_new (\<lambda>g :: nat. (int g, Suc g)) 4 (Suc 0) (1 / 2) 1 2
     = Inr (\<lparr>wf_filterOrder = Suc 0, wf_mu = 1 / 2, wf_lambda = 1, wf_weights = [0]\<rparr>, 3)
   \<and> WienerFilter_process
        \<lparr>wf_filterOrder = Suc 0, wf_mu = 1 / 2, wf_lambda = 1, wf_weights = [0]\<rparr> [1, 1]
      = ([0, 1 / 2], \<lparr>wf_filterOrder = Suc 0, wf_mu = 1 / 2, wf_lambda = 1, wf_weights = [3 / 4]\<rparr>)
   \<and> WienerFilter_process
        \<lparr>wf_filterOrder = Suc 0, wf_mu = 1 / 2, wf_lambda = 1, wf_weights = [3 / 4]\<rparr> [1, 1]
      = ([3 / 4, 7 / 8],
         \<lparr>wf_filterOrder = Suc 0, wf_mu = 1 / 2, wf_lambda = 1, wf_weights = [15 / 16]\<rparr>)
   \<and> WienerFilter_setParameters (\<lambda>g :: nat. (int g, Suc g)) 4
        \<lparr>wf_filterOrder = Suc 0, wf_mu = 1 / 2, wf_lambda = 1, wf_weights = [15 / 16]\<rparr>
        (Suc 0) (1 / 2) 1 2
      = Inr (\<lparr>wf_filterOrder = Suc 0, wf_mu = 1 / 2, wf_lambda = 1, wf_weights = [0]\<rparr>, 3)
   \<and> WienerFilter_reset (\<lambda>g :: nat. (int g, Suc g)) 4
        \<lparr>wf_filterOrder = Suc 0, wf_mu = 1 / 2, wf_lambda = 1, wf_weights = [15 / 16]\<rparr> 2
      = (\<lparr>wf_filterOrder = Suc 0, wf_mu = 1 / 2, wf_lambda = 1, wf_weights = [0]\<rparr>, 3)"
proof -
  let ?rnd = "\<lambda>g :: nat. (int g, Suc g)"
  let ?f0 = "\<lparr>wf_filterOrder = Suc 0, wf_mu = 1 / 2, wf_lambda = 1, wf_weights = [0]\<rparr>"
  let ?f1 = "\<lparr>wf_filterOrder = Suc 0, wf_mu = 1 / 2, wf_lambda = 1, wf_weights = [3 / 4]\<rparr>"
  let ?f2 = "\<lparr>wf_filterOrder = Suc 0, wf_mu = 1 / 2, wf_lambda = 1, wf_weights = [15 / 16]\<rparr>"
  have v0: "wf_filterOrder ?f0 \<noteq> 0" "0 < wf_mu ?f0" "wf_mu ?f0 < 1" "0 < wf_lambda ?f0"
    "wf_lambda ?f0 \<le> 1" by simp_all
  have v1: "wf_filterOrder ?f1 \<noteq> 0" "0 < wf_mu ?f1" "wf_mu ?f1 < 1" "0 < wf_lambda ?f1"
    "wf_lambda ?f1 \<le> 1" by simp_all
  have v2: "wf_filterOrder ?f2 \<noteq> 0" "0 < wf_mu ?f2" "wf_mu ?f2 < 1" "0 < wf_lambda ?f2"
    "wf_lambda ?f2 \<le> 1" by simp_all
  have o0: "fst (WienerFilter_process ?f0 [1, 1]) = [0, 1 / 2]"
    by (simp add: WienerFilter_process_def processLMS_def wiener_example_loop)
  have o1: "fst (WienerFilter_process ?f1 [1, 1]) = [3 / 4, 7 / 8]"
    by (simp add: WienerFilter_process_def processLMS_def wiener_example_second_call)
  from wiener_weights_state [OF v0, THEN conjunct1, of "[1, 1]"]
  have s0: "snd (WienerFilter_process ?f0 [1, 1]) = ?f1"
    by (simp add: wiener_example_loop)
  from wiener_weights_state [OF v1, THEN conjunct1, of "[1, 1]"]
  have s1: "snd (WienerFilter_process ?f1 [1, 1]) = ?f2"
    by (simp add: wiener_example_second_call)
  note c = wiener_weights_state [OF v2, THEN conjunct2, THEN conjunct2, THEN conjunct2]
  from c [THEN conjunct1, of ?rnd 4 "Suc 0" "1 / 2" 1 2]
  have r1: "WienerFilter_setParameters ?rnd 4 ?f2 (Suc 0) (1 / 2) 1 2
        = WienerFilter_new ?rnd 4 (Suc 0) (1 / 2) 1 2" .
  from c [THEN conjunct2, THEN conjunct1, of ?rnd 4 2]
  have r2: "WienerFilter_new ?rnd 4 (Suc 0) (1 / 2) 1 2 = Inr (WienerFilter_reset ?rnd 4 ?f2 2)"
    by simp
  show ?thesis
    using r1 r2 s0 s1 o0 o1 by (simp add: wiener_example_new prod_eq_iff)
qed

section \<open>Savitzky-Golay: the configuration with window 3 and order 1\<close>

text \<open>The solve, step by step: matrix \<open>[[3,0],[0,2]]\<close>, solution \<open>(1/3, 0)\<close>, three equal taps.\<close>

lemma upto_m1_1: "[- 1..1::int] = [-1, 0, 1]"
  by (simp add: upto.simps)

lemma momentMatrix_example: "momentMatrix (Suc 0) (Suc 0) = [[3, 0], [0, 2]]"
  by (simp add: momentMatrix_def upt_rec upto_m1_1)

lemma forwardElimination_example: "forwardElimination 2 [0, 1] ([[3, 0], [0, 2]], [1, 0]) = Inr ([[3, 0], [0, 2]], [1, 0])"
  by (simp add: findMaxRow_def swapRows_def eliminateRow_def upt_rec)

lemma backSubstitution_example: "backSubstitution 2 [[3, 0], [0, 2]] [1, 0] = [1 / 3, 0]"
  by (simp add: backSubstitution_def upt_rec eval_nat_numeral)

lemma gaussElimination_example: "gaussElimination [[3, 0], [0, 2]] [1, 0] = Inr [1 / 3, 0]"
proof -
  have l: "length [[3, 0], [0, 2 :: real]] = 2" by simp
  have u: "[0..<2] = [0, 1]" by (simp add: upt_rec)
  show ?thesis
    unfolding gaussElimination_def Let_def l u forwardElimination_example
    by (simp add: backSubstitution_example)
qed

lemma SavgolFilter_example_new:
  "SavgolFilter_new 3 (Suc 0)
   = Inr \<lparr>sg_windowSize = 3, sg_polyOrder = Suc 0, sg_coefficients = [1 / 3, 1 / 3, 1 / 3]\<rparr>"
proof -
  have r: "(replicate (1 + 1) 0)[0 := 1] = [1, 0 :: real]"
    by (simp add: eval_nat_numeral)
  have h: "(3::nat) div 2 = 1" by simp
  show ?thesis
    unfolding SavgolFilter_new_def calculateCoefficients_def Let_def
    by (simp add: h momentMatrix_example r gaussElimination_example upt_rec)
qed

section \<open>Configuration errors\<close>

lemma MedianFilter_new_char:
  "MedianFilter_new w = (if w = 0 \<or> even w then Inl Invalid_argument else Inr \<lparr>mf_windowSize = w\<rparr>)"
  by (auto simp: MedianFilter_new_def setWindowSize_def IsValidWindowSize_def)

lemma setWindowSize_char:
  "setWindowSize f w = (if w = 0 \<or> even w then Inl Invalid_argument else Inr (f\<lparr>mf_windowSize := w\<rparr>))"
  by (auto simp: setWindowSize_def IsValidWindowSize_def)

lemma WienerFilter_new_char:
  "(WienerFilter_new rnd rm p mu lam g = Inl Invalid_argument)
     = (p = 0 \<or> mu \<le> 0 \<or> 1 \<le> mu \<or> lam \<le> 0 \<or> 1 < lam)
   \<and> (\<exists>w g'. WienerFilter_new rnd rm p mu lam g = Inl Invalid_argument
         \<or> WienerFilter_new rnd rm p mu lam g
             = Inr (\<lparr>wf_filterOrder = p, wf_mu = mu, wf_lambda = lam, wf_weights = w\<rparr>, g'))"
  by (auto simp: WienerFilter_new_def WienerFilter_reset_def split: prod.splits)

lemma MorphologicalFilter_new_char:
  "MorphologicalFilter_new op n
   = (if n = 0 then Inl Invalid_argument
      else Inr \<lparr>mo_operation = op, mo_structuringElement = replicate n 0\<rparr>)"
  by (simp add: MorphologicalFilter_new_def createFlatElement_def)

lemma OutlierDetection_new_char:
  "OutlierDetection_new dm im thr w
   = (if thr \<le> 0 \<or> w = 0 \<or> even w then Inl Invalid_argument
      else Inr \<lparr>od_detectionMethod = dm, od_interpolationMethod = im, od_threshold = thr,
                od_windowSize = w, od_arOrder = 5\<rparr>)"
  by (auto simp: OutlierDetection_new_def)

lemma OutlierDetection_setParameters_char:
  "OutlierDetection_setParameters f dm im thr w
   = (if thr \<le> 0 \<or> w = 0 \<or> even w then Inl Invalid_argument
      else Inr (f\<lparr>od_detectionMethod := dm, od_interpolationMethod := im, od_threshold := thr,
                od_windowSize := w\<rparr>))"
  by (auto simp: OutlierDetection_setParameters_def)

lemma calculateCoefficients_fields:
  "calculateCoefficients f = Inr f' \<Longrightarrow>
   sg_windowSize f' = sg_windowSize f \<and> sg_polyOrder f' = sg_polyOrder f"
  by (auto simp: calculateCoefficients_def Let_def split: sum.splits)

lemma forwardElimination_error:
  "forwardElimination n is s = Inl e \<Longrightarrow> e = Runtime_error"
  by (induction n "is" s rule: forwardElimination.induct) (auto simp: Let_def split: if_splits)

lemma calculateCoefficients_error:
  "calculateCoefficients f = Inl e \<Longrightarrow> e = Runtime_error"
  by (auto simp: calculateCoefficients_def gaussElimination_def Let_def
      split: sum.splits dest: forwardElimination_error)

lemma SavgolFilter_new_char:
  "(SavgolFilter_new w k = Inl Invalid_argument) = (w = 0 \<or> even w \<or> w \<le> k)"
  by (auto simp: SavgolFilter_new_def dest: calculateCoefficients_error)

lemma SavgolFilter_setParameters_char:
  "(SavgolFilter_setParameters f w k = Inl Invalid_argument) = (w = 0 \<or> even w \<or> w \<le> k)"
  by (auto simp: SavgolFilter_setParameters_def dest: calculateCoefficients_error)

lemma SavgolFilter_new_fields:
  "SavgolFilter_new w k = Inr f \<Longrightarrow> sg_windowSize f = w \<and> sg_polyOrder f = k"
  by (auto simp: SavgolFilter_new_def split: if_splits dest: calculateCoefficients_fields)

lemma applyFilterLoop_error:
  "applyFilterLoop f input c is r = Inl e \<Longrightarrow> e = Out_of_bounds"
  by (induction f input c "is" r rule: applyFilterLoop.induct)
    (auto simp: Let_def getReflectedValue_def readAt_def split: sum.splits if_splits)

lemma savgolLoop_error:
  "savgolLoop f input is out = Inl e \<Longrightarrow> e = Out_of_bounds"
  by (induction f input "is" out rule: savgolLoop.induct)
    (auto simp: applyFilter_def split: sum.splits dest: applyFilterLoop_error)

lemma SavgolFilter_process_error:
  "SavgolFilter_process f input \<noteq> Inl Invalid_argument"
  using savgolLoop_error [of f input "[0..<length input]" "[]" Invalid_argument]
  by (auto simp: SavgolFilter_process_def)

lemma MorphologicalFilter_process_ok:
  "mo_structuringElement f \<noteq> [] \<Longrightarrow>
   MorphologicalFilter_process f input
   = Inr (if input = [] then []
          else case mo_operation f of
                 EROSION \<Rightarrow> erosion f input
               | DILATION \<Rightarrow> dilation f input
               | OPENING \<Rightarrow> dilation f (erosion f input)
               | CLOSING \<Rightarrow> erosion f (dilation f input))"
  by (auto simp: MorphologicalFilter_process_def opening_def closing_def
      MorphologicalFilter_new_element_def erosion_def dilation_def split: Operation.splits)


lemma WienerFilter_new_invalid:
  "(WienerFilter_new rnd rm p mu lam g = Inl Invalid_argument)
     = (p = 0 \<or> mu \<le> 0 \<or> 1 \<le> mu \<or> lam \<le> 0 \<or> 1 < lam)"
  by (auto simp: WienerFilter_new_def)

lemma WienerFilter_new_fields:
  "WienerFilter_new rnd rm p mu lam g = Inr (fw, g') \<Longrightarrow>
   wf_filterOrder fw = p \<and> wf_mu fw = mu \<and> wf_lambda fw = lam"
  by (auto simp: WienerFilter_new_def WienerFilter_reset_def split: if_splits prod.splits)

text \<open>
  When every \<open>double\<close> parameter is a number (the parameters here are reals, so none is NaN):
  every constructor and every reconfiguration raises \<open>Invalid_argument\<close> exactly
  when a parameter invariant is violated (window size zero or even; filter order 0; threshold
  not strictly positive; \<open>mu\<close> outside \<open>(0,1)\<close>; \<open>lambda\<close> outside \<open>(0,1]\<close>; polynomial order
  not below the window size; empty structuring element) and otherwise stores the parameters as
  given, without clamping. No \<open>process\<close> raises it: those of the median, adaptive and outlier
  filters have no failing path at all, that of a morphological filter with a non-empty element
  returns a signal, and that of the Savitzky-Golay filter never fails with this error.
\<close>

lemma configuration_errors_on_numbers:
  "MedianFilter_new w
     = (if w = 0 \<or> even w then Inl Invalid_argument else Inr \<lparr>mf_windowSize = w\<rparr>)
   \<and> setWindowSize fm w
     = (if w = 0 \<or> even w then Inl Invalid_argument else Inr (fm\<lparr>mf_windowSize := w\<rparr>))
   \<and> (WienerFilter_new rnd rm p mu lam g = Inl Invalid_argument)
     = (p = 0 \<or> mu \<le> 0 \<or> 1 \<le> mu \<or> lam \<le> 0 \<or> 1 < lam)
   \<and> (\<forall>fw g'. WienerFilter_new rnd rm p mu lam g = Inr (fw, g')
        \<longrightarrow> wf_filterOrder fw = p \<and> wf_mu fw = mu \<and> wf_lambda fw = lam)
   \<and> WienerFilter_setParameters rnd rm fw0 p mu lam g = WienerFilter_new rnd rm p mu lam g
   \<and> MorphologicalFilter_new op n
     = (if n = 0 then Inl Invalid_argument
        else Inr \<lparr>mo_operation = op, mo_structuringElement = replicate n 0\<rparr>)
   \<and> MorphologicalFilter_new_element op se
     = (if se = [] then Inl Invalid_argument
        else Inr \<lparr>mo_operation = op, mo_structuringElement = se\<rparr>)
   \<and> setStructuringElement fo se
     = (if se = [] then Inl Invalid_argument else Inr (fo\<lparr>mo_structuringElement := se\<rparr>))
   \<and> OutlierDetection_new dm im thr w
     = (if thr \<le> 0 \<or> w = 0 \<or> even w then Inl Invalid_argument
        else Inr \<lparr>od_detectionMethod = dm, od_interpolationMethod = im, od_threshold = thr,
                  od_windowSize = w, od_arOrder = 5\<rparr>)
   \<and> OutlierDetection_setParameters fd dm im thr w
     = (if thr \<le> 0 \<or> w = 0 \<or> even w then Inl Invalid_argument
        else Inr (fd\<lparr>od_detectionMethod := dm, od_interpolationMethod := im,
                    od_threshold := thr, od_windowSize := w\<rparr>))
   \<and> (SavgolFilter_new w k = Inl Invalid_argument) = (w = 0 \<or> even w \<or> w \<le> k)
   \<and> (\<forall>fs. SavgolFilter_new w k = Inr fs \<longrightarrow> sg_windowSize fs = w \<and> sg_polyOrder fs = k)
   \<and> (SavgolFilter_setParameters fs0 w k = Inl Invalid_argument) = (w = 0 \<or> even w \<or> w \<le> k)
   \<and> (mo_structuringElement fo \<noteq> [] \<longrightarrow> (\<exists>y. MorphologicalFilter_process fo x = Inr y))
   \<and> SavgolFilter_process fs0 x \<noteq> Inl Invalid_argument"
proof (intro conjI allI impI)
  show "MorphologicalFilter_new_element op se
     = (if se = [] then Inl Invalid_argument
        else Inr \<lparr>mo_operation = op, mo_structuringElement = se\<rparr>)"
    by (simp add: MorphologicalFilter_new_element_def)
  show "setStructuringElement fo se
     = (if se = [] then Inl Invalid_argument else Inr (fo\<lparr>mo_structuringElement := se\<rparr>))"
    by (simp add: setStructuringElement_def)
  show "\<exists>y. MorphologicalFilter_process fo x = Inr y" if "mo_structuringElement fo \<noteq> []"
    using MorphologicalFilter_process_ok [OF that] by blast
  show "wf_filterOrder fw = p" "wf_mu fw = mu" "wf_lambda fw = lam"
    if "WienerFilter_new rnd rm p mu lam g = Inr (fw, g')" for fw g'
    using WienerFilter_new_fields [OF that] by simp_all
  show "sg_windowSize fs = w" "sg_polyOrder fs = k" if "SavgolFilter_new w k = Inr fs" for fs
    using SavgolFilter_new_fields [OF that] by simp_all
qed (rule MedianFilter_new_char setWindowSize_char WienerFilter_new_invalid setParameters_eq_new
    MorphologicalFilter_new_char OutlierDetection_new_char OutlierDetection_setParameters_char
    SavgolFilter_new_char SavgolFilter_setParameters_char SavgolFilter_process_error)+

lemma configuration_errors_on_numbers_example:
  "MedianFilter_new 4 = Inl Invalid_argument
   \<and> MedianFilter_new 5 = Inr \<lparr>mf_windowSize = 5\<rparr>
   \<and> WienerFilter_new (\<lambda>g :: nat. (int g, Suc g)) 4 (Suc 0) 1 1 2 = Inl Invalid_argument
   \<and> WienerFilter_new (\<lambda>g :: nat. (int g, Suc g)) 4 (Suc 0) (1 / 2) 1 2
       = Inr (\<lparr>wf_filterOrder = Suc 0, wf_mu = 1 / 2, wf_lambda = 1, wf_weights = [0]\<rparr>, 3)
   \<and> wf_mu \<lparr>wf_filterOrder = Suc 0, wf_mu = 1 / 2, wf_lambda = 1, wf_weights = [0]\<rparr> = 1 / 2
   \<and> MorphologicalFilter_new OPENING 0 = Inl Invalid_argument
   \<and> OutlierDetection_new MAD_BASED LINEAR 0 5 = Inl Invalid_argument
   \<and> SavgolFilter_new 3 3 = Inl Invalid_argument
   \<and> SavgolFilter_new 3 (Suc 0)
       = Inr \<lparr>sg_windowSize = 3, sg_polyOrder = Suc 0, sg_coefficients = [1 / 3, 1 / 3, 1 / 3]\<rparr>
   \<and> sg_windowSize
        \<lparr>sg_windowSize = 3, sg_polyOrder = Suc 0, sg_coefficients = [1 / 3, 1 / 3, 1 / 3]\<rparr> = 3
   \<and> mo_structuringElement \<lparr>mo_operation = OPENING, mo_structuringElement = [0, 0, 0]\<rparr> \<noteq> []
   \<and> (\<exists>y. MorphologicalFilter_process
              \<lparr>mo_operation = OPENING, mo_structuringElement = [0, 0, 0]\<rparr> [5, 0, 5] = Inr y)"
proof -
  let ?cnt = "\<lambda>g :: nat. (int g, Suc g)"
  let ?fw = "\<lparr>wf_filterOrder = Suc 0, wf_mu = 1 / 2, wf_lambda = 1, wf_weights = [0]\<rparr>"
  let ?fs = "\<lparr>sg_windowSize = 3, sg_polyOrder = Suc 0, sg_coefficients = [1 / 3, 1 / 3, 1 / 3]\<rparr>"
  let ?fo = "\<lparr>mo_operation = OPENING, mo_structuringElement = [0, 0, 0]\<rparr>"
  note c1 = configuration_errors_on_numbers [THEN conjunct1]
  note c3 = configuration_errors_on_numbers [THEN conjunct2, THEN conjunct2, THEN conjunct1]
  note c4 = configuration_errors_on_numbers [THEN conjunct2, THEN conjunct2, THEN conjunct2, THEN conjunct1]
  note r5 = configuration_errors_on_numbers [THEN conjunct2, THEN conjunct2, THEN conjunct2, THEN conjunct2,
      THEN conjunct2]
  note c6 = r5 [THEN conjunct1]
  note r9 = r5 [THEN conjunct2, THEN conjunct2, THEN conjunct2]
  note c9 = r9 [THEN conjunct1]
  note c11 = r9 [THEN conjunct2, THEN conjunct2, THEN conjunct1]
  note c12 = r9 [THEN conjunct2, THEN conjunct2, THEN conjunct2, THEN conjunct1]
  note c14 = r9 [THEN conjunct2, THEN conjunct2, THEN conjunct2, THEN conjunct2, THEN conjunct2,
      THEN conjunct1]
  have m4: "MedianFilter_new 4 = Inl Invalid_argument"
    using c1 [of 4] by simp
  have m5: "MedianFilter_new 5 = Inr \<lparr>mf_windowSize = 5\<rparr>"
    using c1 [of 5] by simp
  have w1: "WienerFilter_new ?cnt 4 (Suc 0) 1 1 2 = Inl Invalid_argument"
    using c3 [of ?cnt 4 "Suc 0" 1 1 2] by simp
  have w2: "wf_mu ?fw = 1 / 2"
    using c4 [of ?cnt 4 "Suc 0" "1 / 2" 1 2] wiener_example_new by blast
  have o0: "MorphologicalFilter_new OPENING 0 = Inl Invalid_argument"
    using c6 [of OPENING 0] by simp
  have d0: "OutlierDetection_new MAD_BASED LINEAR 0 5 = Inl Invalid_argument"
    using c9 [of MAD_BASED LINEAR 0 5] by simp
  have s3: "SavgolFilter_new 3 3 = Inl Invalid_argument"
    using c11 [of 3 3] by simp
  have s1: "sg_windowSize ?fs = 3"
    using c12 [of 3 "Suc 0"] SavgolFilter_example_new by blast
  have e: "mo_structuringElement ?fo \<noteq> []" by simp
  have p: "\<exists>y. MorphologicalFilter_process ?fo [5, 0, 5] = Inr y"
    using c14 [of ?fo "[5, 0, 5]"] e by blast
  show ?thesis
    using m4 m5 w1 w2 o0 d0 s3 s1 e p wiener_example_new SavgolFilter_example_new by simp
qed

section \<open>Configuration errors: parameters that are NaN\<close>

text \<open>On finite parameters the constructors on doubles throw exactly when those on reals do.\<close>

lemma WienerFilter_new_dbl_finite:
  "(WienerFilter_new_dbl rnd RAND_MAX p (Finite mu) (Finite lambda) g = Inl Invalid_argument)
   = (WienerFilter_new rnd RAND_MAX p mu lambda g = Inl Invalid_argument)"
  by (simp add: WienerFilter_new_dbl_def WienerFilter_new_def d_less_eq_def d_less_def)

lemma OutlierDetection_new_dbl_finite:
  "(OutlierDetection_new_dbl dm im (Finite threshold) w = Inl Invalid_argument)
   = (OutlierDetection_new dm im threshold w = Inl Invalid_argument)"
  by (simp add: OutlierDetection_new_dbl_def OutlierDetection_new_def d_less_eq_def)

lemma WienerFilter_reset_dbl_fields:
  "wd_filterOrder (fst (WienerFilter_reset_dbl rnd RAND_MAX f g)) = wd_filterOrder f
   \<and> wd_mu (fst (WienerFilter_reset_dbl rnd RAND_MAX f g)) = wd_mu f
   \<and> wd_lambda (fst (WienerFilter_reset_dbl rnd RAND_MAX f g)) = wd_lambda f"
  by (simp add: WienerFilter_reset_dbl_def split: prod.splits)

text \<open>
  Claim C9, at a failing input. The step size NaN is not inside \<open>(0,1)\<close>, yet
  \<open>WienerFilter(1, NaN, 0.5)\<close> is constructed and holds NaN as its step size: both
  \<open>mu <= 0.0\<close> and \<open>mu >= 1.0\<close> are false. In the same way \<open>WienerFilter(1, 0.5, NaN)\<close> is
  constructed with the forgetting factor NaN, and the outlier detector with the threshold NaN,
  which is not strictly positive.
\<close>

theorem configuration_nan_accepted:
  "(case WienerFilter_new_dbl rnd RAND_MAX (Suc 0) NaN (Finite (1 / 2)) g of
      Inl e \<Rightarrow> False
    | Inr (f, g') \<Rightarrow> wd_filterOrder f = Suc 0 \<and> wd_mu f = NaN \<and> wd_lambda f = Finite (1 / 2))
   \<and> \<not> (d_less (Finite 0) NaN \<and> d_less NaN (Finite 1))
   \<and> (case WienerFilter_new_dbl rnd RAND_MAX (Suc 0) (Finite (1 / 2)) NaN g of
        Inl e \<Rightarrow> False
      | Inr (f, g') \<Rightarrow> wd_filterOrder f = Suc 0 \<and> wd_mu f = Finite (1 / 2) \<and> wd_lambda f = NaN)
   \<and> \<not> (d_less (Finite 0) NaN \<and> d_less_eq NaN (Finite 1))
   \<and> OutlierDetection_new_dbl MAD_BASED LINEAR NaN 5
       = Inr \<lparr>dd_detectionMethod = MAD_BASED, dd_interpolationMethod = LINEAR,
              dd_threshold = NaN, dd_windowSize = 5, dd_arOrder = 5\<rparr>
   \<and> \<not> d_less (Finite 0) NaN"
proof -
  have 1: "case WienerFilter_new_dbl rnd RAND_MAX (Suc 0) mu lambda g of
      Inl e \<Rightarrow> False
    | Inr (f, g') \<Rightarrow> wd_filterOrder f = Suc 0 \<and> wd_mu f = mu \<and> wd_lambda f = lambda"
    if "\<not> d_less_eq mu (Finite 0)" "\<not> d_less_eq (Finite 1) mu"
       "\<not> d_less_eq lambda (Finite 0)" "\<not> d_less (Finite 1) lambda" for mu lambda
  proof -
    obtain f' g' where r: "WienerFilter_reset_dbl rnd RAND_MAX
        \<lparr>wd_filterOrder = Suc 0, wd_mu = mu, wd_lambda = lambda, wd_weights = []\<rparr> g = (f', g')"
      by (cases "WienerFilter_reset_dbl rnd RAND_MAX
        \<lparr>wd_filterOrder = Suc 0, wd_mu = mu, wd_lambda = lambda, wd_weights = []\<rparr> g") blast
    from WienerFilter_reset_dbl_fields [of rnd RAND_MAX
        "\<lparr>wd_filterOrder = Suc 0, wd_mu = mu, wd_lambda = lambda, wd_weights = []\<rparr>" g]
    have "wd_filterOrder f' = Suc 0 \<and> wd_mu f' = mu \<and> wd_lambda f' = lambda"
      by (simp add: r)
    then show ?thesis
      using that by (simp add: WienerFilter_new_dbl_def r)
  qed
  show ?thesis
    by (intro conjI 1) (simp_all add: d_less_eq_def d_less_def OutlierDetection_new_dbl_def)
qed

section \<open>Savitzky-Golay: the indices read through the reflection\<close>

text \<open>
  When the signal is longer than the half-window, every read of \<open>process\<close> is in bounds and
  the output has the length of the input.
\<close>

lemma getReflectedValue_in_range:
  assumes "input \<noteq> []" "- int (length input) < index"
  shows "\<exists>v. getReflectedValue input index = Inr v"
  using assms by (auto simp: getReflectedValue_def readAt_def Let_def)

lemma getReflectedValue_interior:
  "0 \<le> index \<Longrightarrow> index < int (length input) \<Longrightarrow>
   getReflectedValue input index = Inr (input ! nat index)"
  by (simp add: getReflectedValue_def readAt_def)

lemma applyFilterLoop_ok:
  assumes "input \<noteq> []" "sg_windowSize f div 2 < length input"
  shows "\<exists>v. applyFilterLoop f input c is r = Inr v"
proof (induction "is" arbitrary: r)
  case Nil
  then show ?case by simp
next
  case (Cons i "is")
  have "- int (length input) < int c - int (sg_windowSize f div 2) + int i"
    using assms(2) by linarith
  from getReflectedValue_in_range [OF assms(1) this]
  obtain v where v: "getReflectedValue input (int c - int (sg_windowSize f div 2) + int i) = Inr v"
    by blast
  show ?case using Cons.IH by (simp add: v Let_def)
qed

lemma savgolLoop_ok:
  assumes "input \<noteq> []" "sg_windowSize f div 2 < length input"
  shows "\<exists>out'. savgolLoop f input is out = Inr out' \<and> length out' = length out + length is"
proof (induction "is" arbitrary: out)
  case Nil
  then show ?case by simp
next
  case (Cons i "is")
  from applyFilterLoop_ok [OF assms, of i "[0..<sg_windowSize f]" 0]
  obtain v where v: "applyFilter f input i = Inr v"
    by (auto simp: applyFilter_def)
  from Cons.IH [of "out @ [v]"] show ?case by (auto simp: v)
qed

lemma SavgolFilter_process_long_signal:
  assumes "sg_windowSize f div 2 < length input"
  shows "\<exists>out. SavgolFilter_process f input = Inr out \<and> length out = length input"
proof -
  have ne: "input \<noteq> []" using assms by auto
  from savgolLoop_ok [OF ne assms, of "[0..<length input]" "[]"]
  show ?thesis using ne by (simp add: SavgolFilter_process_def)
qed

text \<open>
  Claim C10, at a failing input. The filter constructed with window 3 and order 1, applied to
  the one-sample signal \<open>[1]\<close>: for the centre 0 and the window position 0 the index is \<open>-1\<close>,
  the left branch reads \<open>input[1]\<close>, and that is outside the signal. The right branch has a
  clamp to the first sample; the left branch has none.
\<close>

theorem savgol_reflection_out_of_bounds:
  "SavgolFilter_new 3 (Suc 0)
     = Inr \<lparr>sg_windowSize = 3, sg_polyOrder = Suc 0, sg_coefficients = [1 / 3, 1 / 3, 1 / 3]\<rparr>
   \<and> getReflectedValue [1] (int 0 - int (3 div 2) + int 0) = Inl Out_of_bounds
   \<and> applyFilter
        \<lparr>sg_windowSize = 3, sg_polyOrder = Suc 0, sg_coefficients = [1 / 3, 1 / 3, 1 / 3]\<rparr> [1] 0
       = Inl Out_of_bounds"
  by (simp add: SavgolFilter_example_new getReflectedValue_def readAt_def applyFilter_def
      upt_rec)

section \<open>Output length of \<open>process\<close>\<close>

text \<open>
  The median, adaptive, morphological and outlier filters return a signal of the length of
  the input, for every input.
\<close>

lemma WienerFilter_process_length: "length (fst (WienerFilter_process f input)) = length input"
  using lmsLoop_output_length [of f input "length input"]
  by (auto simp: WienerFilter_process_def processLMS_def split: prod.splits)

lemma MorphologicalFilter_process_length:
  "mo_structuringElement f \<noteq> [] \<Longrightarrow>
   \<exists>out. MorphologicalFilter_process f input = Inr out \<and> length out = length input"
  by (auto simp: MorphologicalFilter_process_ok erosion_def dilation_def split: Operation.splits)

lemma fold_update_length:
  "(\<And>i r. length (g i r) = length r) \<Longrightarrow> length (fold g xs r) = length r"
  by (induction xs arbitrary: r) auto

lemma interpolateLinear_length: "length (interpolateLinear input outliers) = length input"
  unfolding interpolateLinear_def
  by (rule fold_update_length) (auto split: prod.splits)

lemma interpolateMedian_length: "length (interpolateMedian f input outliers) = length input"
  unfolding interpolateMedian_def Let_def
  by (rule fold_update_length) (auto split: prod.splits)

lemma interpolateAutoregressive_length:
  "length (interpolateAutoregressive f input outliers) = length input"
  unfolding interpolateAutoregressive_def Let_def
  by (rule fold_update_length) (auto split: prod.splits)

lemma OutlierDetection_process_length:
  "length (OutlierDetection_process f input) = length input"
  by (simp add: OutlierDetection_process_def Let_def interpolateLinear_length
      interpolateMedian_length interpolateAutoregressive_length split: InterpolationMethod.splits)

lemma process_empty:
  "MedianFilter_process fm [] = [] \<and> WienerFilter_process fw [] = ([], fw)
   \<and> MorphologicalFilter_process fo [] = Inr [] \<and> OutlierDetection_process fd [] = []
   \<and> SavgolFilter_process fs [] = Inr []"
  by (simp add: MedianFilter_process_def WienerFilter_process_def
      MorphologicalFilter_process_def OutlierDetection_process_def SavgolFilter_process_def)

text \<open>
  Claim C1, at a failing input. \<open>process\<close> of the Savitzky-Golay filter with window 3 and
  order 1 on the one-sample signal \<open>[1]\<close> does not return a signal: it stops at a read
  outside the input.
\<close>

theorem savgol_short_signal_process:
  "SavgolFilter_new 3 (Suc 0)
     = Inr \<lparr>sg_windowSize = 3, sg_polyOrder = Suc 0, sg_coefficients = [1 / 3, 1 / 3, 1 / 3]\<rparr>
   \<and> SavgolFilter_process
        \<lparr>sg_windowSize = 3, sg_polyOrder = Suc 0, sg_coefficients = [1 / 3, 1 / 3, 1 / 3]\<rparr> [1]
       = Inl Out_of_bounds"
  by (simp add: SavgolFilter_example_new SavgolFilter_process_def getReflectedValue_def
      readAt_def applyFilter_def upt_rec)

section \<open>Morphological opening with a flat element\<close>

lemma fold_min_char:
  fixes g :: "nat \<Rightarrow> real"
  shows "fold (\<lambda>j acc. if P j then min acc (g j) else acc) js m0 \<le> m0
    \<and> (\<forall>j\<in>set js. P j \<longrightarrow> fold (\<lambda>j acc. if P j then min acc (g j) else acc) js m0 \<le> g j)
    \<and> (fold (\<lambda>j acc. if P j then min acc (g j) else acc) js m0 = m0
        \<or> (\<exists>j\<in>set js. P j \<and> fold (\<lambda>j acc. if P j then min acc (g j) else acc) js m0 = g j))"
proof (induction js arbitrary: m0)
  case Nil
  then show ?case by simp
next
  case (Cons a js)
  let ?F = "\<lambda>m. fold (\<lambda>j acc. if P j then min acc (g j) else acc) js m"
  show ?case
  proof (cases "P a")
    case True
    from Cons.IH [of "min m0 (g a)"]
    have ih: "?F (min m0 (g a)) \<le> min m0 (g a)"
      "\<forall>j\<in>set js. P j \<longrightarrow> ?F (min m0 (g a)) \<le> g j"
      "?F (min m0 (g a)) = min m0 (g a) \<or> (\<exists>j\<in>set js. P j \<and> ?F (min m0 (g a)) = g j)"
      by blast+
    show ?thesis
      using True ih by (auto simp: min_def split: if_splits)
  next
    case False
    from Cons.IH [of m0] show ?thesis using False by auto
  qed
qed

lemma fold_max_char:
  fixes g :: "nat \<Rightarrow> real"
  shows "m0 \<le> fold (\<lambda>j acc. if P j then max acc (g j) else acc) js m0
    \<and> (\<forall>j\<in>set js. P j \<longrightarrow> g j \<le> fold (\<lambda>j acc. if P j then max acc (g j) else acc) js m0)
    \<and> (fold (\<lambda>j acc. if P j then max acc (g j) else acc) js m0 = m0
        \<or> (\<exists>j\<in>set js. P j \<and> fold (\<lambda>j acc. if P j then max acc (g j) else acc) js m0 = g j))"
proof (induction js arbitrary: m0)
  case Nil
  then show ?case by simp
next
  case (Cons a js)
  let ?F = "\<lambda>m. fold (\<lambda>j acc. if P j then max acc (g j) else acc) js m"
  show ?case
  proof (cases "P a")
    case True
    from Cons.IH [of "max m0 (g a)"]
    have ih: "max m0 (g a) \<le> ?F (max m0 (g a))"
      "\<forall>j\<in>set js. P j \<longrightarrow> g j \<le> ?F (max m0 (g a))"
      "?F (max m0 (g a)) = max m0 (g a) \<or> (\<exists>j\<in>set js. P j \<and> ?F (max m0 (g a)) = g j)"
      by blast+
    show ?thesis
      using True ih by (auto simp: max_def split: if_splits)
  next
    case False
    from Cons.IH [of m0] show ?thesis using False by auto
  qed
qed


text \<open>
  With a flat element of size \<open>2h + 1\<close> and samples within the range of the sentinels,
  erosion at \<open>i\<close> is a lower bound of the samples at distance at most \<open>h\<close> and is one of
  them; dilation is the same with an upper bound.
\<close>

lemma erosionAt_flat:
  assumes i: "i < length x" and ub: "\<forall>v\<in>set x. v \<le> DBL_MAX"
  shows "(\<forall>k<length x. i \<le> k + h \<and> k \<le> i + h
            \<longrightarrow> erosionAt (replicate (2 * h + 1) 0) x i \<le> x ! k)
       \<and> (\<exists>k<length x. i \<le> k + h \<and> k \<le> i + h
            \<and> erosionAt (replicate (2 * h + 1) 0) x i = x ! k)"
proof -
  define P where "P j \<longleftrightarrow> 0 \<le> int i - int h + int j \<and> int i - int h + int j < int (length x)"
    for j
  define g where "g j = x ! nat (int i - int h + int j) - replicate (2 * h + 1) (0::real) ! j"
    for j
  define m where "m = fold (\<lambda>j acc. if P j then min acc (g j) else acc) [0..<2 * h + 1] DBL_MAX"
  have e: "erosionAt (replicate (2 * h + 1) 0) x i = (if m = DBL_MAX then x ! i else m)"
  proof -
    have hd: "length (replicate (2 * h + 1) (0::real)) div 2 = h" by simp
    show ?thesis
      unfolding erosionAt_def Let_def hd m_def P_def g_def
      by (simp only: length_replicate)
  qed
  have c: "m \<le> DBL_MAX \<and> (\<forall>j\<in>set [0..<2 * h + 1]. P j \<longrightarrow> m \<le> g j)
      \<and> (m = DBL_MAX \<or> (\<exists>j\<in>set [0..<2 * h + 1]. P j \<and> m = g j))"
    unfolding m_def by (rule fold_min_char)
  have m1: "\<And>j. j < 2 * h + 1 \<Longrightarrow> P j \<Longrightarrow> m \<le> g j"
    and m2: "m = DBL_MAX \<or> (\<exists>j<2 * h + 1. P j \<and> m = g j)"
    using c by (auto simp del: upt_Suc)
  have gz: "g j = x ! nat (int i - int h + int j)" if "j < 2 * h + 1" for j
    unfolding g_def by (simp only: nth_replicate [OF that] diff_zero)
  have win: "m \<le> x ! k" if "k < length x" "i \<le> k + h" "k \<le> i + h" for k
  proof -
    have j: "k + h - i < 2 * h + 1" using that by linarith
    have idx: "int i - int h + int (k + h - i) = int k" using that by linarith
    have "P (k + h - i)" unfolding P_def idx using that by simp
    from m1 [OF j this] show ?thesis
      unfolding gz [OF j] idx by simp
  qed
  have le: "x ! k \<le> DBL_MAX" if "k < length x" for k
    using ub that by simp
  have "(\<forall>k<length x. i \<le> k + h \<and> k \<le> i + h
            \<longrightarrow> (if m = DBL_MAX then x ! i else m) \<le> x ! k)
       \<and> (\<exists>k<length x. i \<le> k + h \<and> k \<le> i + h
            \<and> (if m = DBL_MAX then x ! i else m) = x ! k)"
  proof (cases "m = DBL_MAX")
    case True
    have "x ! i \<le> x ! k" if "k < length x" "i \<le> k + h" "k \<le> i + h" for k
      using win [OF that] le [OF i] True by simp
    then show ?thesis using i True by auto
  next
    case False
    with m2 obtain j where j: "j < 2 * h + 1" "P j" "m = g j" by blast
    define k where "k = nat (int i - int h + int j)"
    have k: "k < length x" "i \<le> k + h" "k \<le> i + h"
      using j(1,2) unfolding P_def k_def by linarith+
    have "m = x ! k" using j(3) by (simp add: gz [OF j(1)] k_def)
    then show ?thesis using k win False by auto
  qed
  then show ?thesis unfolding e .
qed

lemma dilationAt_flat:
  assumes i: "i < length x" and lb: "\<forall>v\<in>set x. DBL_LOWEST \<le> v"
  shows "(\<forall>k<length x. i \<le> k + h \<and> k \<le> i + h
            \<longrightarrow> x ! k \<le> dilationAt (replicate (2 * h + 1) 0) x i)
       \<and> (\<exists>k<length x. i \<le> k + h \<and> k \<le> i + h
            \<and> dilationAt (replicate (2 * h + 1) 0) x i = x ! k)"
proof -
  define P where "P j \<longleftrightarrow> 0 \<le> int i - int h + int j \<and> int i - int h + int j < int (length x)"
    for j
  define g where "g j = x ! nat (int i - int h + int j) + replicate (2 * h + 1) (0::real) ! j"
    for j
  define m where "m = fold (\<lambda>j acc. if P j then max acc (g j) else acc) [0..<2 * h + 1] DBL_LOWEST"
  have e: "dilationAt (replicate (2 * h + 1) 0) x i = (if m = DBL_LOWEST then x ! i else m)"
  proof -
    have hd: "length (replicate (2 * h + 1) (0::real)) div 2 = h" by simp
    show ?thesis
      unfolding dilationAt_def Let_def hd m_def P_def g_def
      by (simp only: length_replicate)
  qed
  have c: "DBL_LOWEST \<le> m \<and> (\<forall>j\<in>set [0..<2 * h + 1]. P j \<longrightarrow> g j \<le> m)
      \<and> (m = DBL_LOWEST \<or> (\<exists>j\<in>set [0..<2 * h + 1]. P j \<and> m = g j))"
    unfolding m_def by (rule fold_max_char)
  have m1: "\<And>j. j < 2 * h + 1 \<Longrightarrow> P j \<Longrightarrow> g j \<le> m"
    and m2: "m = DBL_LOWEST \<or> (\<exists>j<2 * h + 1. P j \<and> m = g j)"
    using c by (auto simp del: upt_Suc)
  have gz: "g j = x ! nat (int i - int h + int j)" if "j < 2 * h + 1" for j
    unfolding g_def by (simp only: nth_replicate [OF that] add_0_right)
  have win: "x ! k \<le> m" if "k < length x" "i \<le> k + h" "k \<le> i + h" for k
  proof -
    have j: "k + h - i < 2 * h + 1" using that by linarith
    have idx: "int i - int h + int (k + h - i) = int k" using that by linarith
    have "P (k + h - i)" unfolding P_def idx using that by simp
    from m1 [OF j this] show ?thesis
      unfolding gz [OF j] idx by simp
  qed
  have ge: "DBL_LOWEST \<le> x ! k" if "k < length x" for k
    using lb that by simp
  have "(\<forall>k<length x. i \<le> k + h \<and> k \<le> i + h
            \<longrightarrow> x ! k \<le> (if m = DBL_LOWEST then x ! i else m))
       \<and> (\<exists>k<length x. i \<le> k + h \<and> k \<le> i + h
            \<and> (if m = DBL_LOWEST then x ! i else m) = x ! k)"
  proof (cases "m = DBL_LOWEST")
    case True
    have "x ! k \<le> x ! i" if "k < length x" "i \<le> k + h" "k \<le> i + h" for k
      using win [OF that] ge [OF i] True by simp
    then show ?thesis using i True by auto
  next
    case False
    with m2 obtain j where j: "j < 2 * h + 1" "P j" "m = g j" by blast
    define k where "k = nat (int i - int h + int j)"
    have k: "k < length x" "i \<le> k + h" "k \<le> i + h"
      using j(1,2) unfolding P_def k_def by linarith+
    have "m = x ! k" using j(3) by (simp add: gz [OF j(1)] k_def)
    then show ?thesis using k win False by auto
  qed
  then show ?thesis unfolding e .
qed


lemma flat_opening_idem:
  fixes h :: nat and E D :: "Signal \<Rightarrow> Signal"
  assumes b: "\<forall>v\<in>set x. DBL_LOWEST \<le> v \<and> v \<le> DBL_MAX"
  defines "E \<equiv> \<lambda>y. map (erosionAt (replicate (2 * h + 1) 0) y) [0..<length y]"
    and "D \<equiv> \<lambda>y. map (dilationAt (replicate (2 * h + 1) 0) y) [0..<length y]"
  shows "D (E (D (E x))) = D (E x)"
proof -
  let ?B = "\<lambda>y. \<forall>v\<in>set y. DBL_LOWEST \<le> v \<and> v \<le> DBL_MAX"
  have E_len: "length (E y) = length y" and D_len: "length (D y) = length y" for y
    by (simp_all add: E_def D_def)
  have E_le: "E y ! i \<le> y ! k"
    if "?B y" "i < length y" "k < length y" "i \<le> k + h" "k \<le> i + h" for y i k
    using erosionAt_flat [of i y h] that by (simp add: E_def)
  have E_ex: "\<exists>k<length y. i \<le> k + h \<and> k \<le> i + h \<and> E y ! i = y ! k"
    if "?B y" "i < length y" for y i
    using erosionAt_flat [of i y h] that by (simp add: E_def)
  have D_ge: "y ! k \<le> D y ! i"
    if "?B y" "i < length y" "k < length y" "i \<le> k + h" "k \<le> i + h" for y i k
    using dilationAt_flat [of i y h] that by (simp add: D_def)
  have D_ex: "\<exists>k<length y. i \<le> k + h \<and> k \<le> i + h \<and> D y ! i = y ! k"
    if "?B y" "i < length y" for y i
    using dilationAt_flat [of i y h] that by (simp add: D_def)
  have E_B: "?B (E y)" if "?B y" for y
  proof
    fix v assume "v \<in> set (E y)"
    then obtain i where i: "i < length y" "v = E y ! i"
      by (auto simp: in_set_conv_nth E_len)
    from E_ex [OF that i(1)] obtain k where "k < length y" "E y ! i = y ! k" by blast
    then show "DBL_LOWEST \<le> v \<and> v \<le> DBL_MAX" using that i(2) by auto
  qed
  have D_B: "?B (D y)" if "?B y" for y
  proof
    fix v assume "v \<in> set (D y)"
    then obtain i where i: "i < length y" "v = D y ! i"
      by (auto simp: in_set_conv_nth D_len)
    from D_ex [OF that i(1)] obtain k where "k < length y" "D y ! i = y ! k" by blast
    then show "DBL_LOWEST \<le> v \<and> v \<le> DBL_MAX" using that i(2) by auto
  qed
  define ea where "ea = E x"
  define oa where "oa = D ea"
  define eb where "eb = E oa"
  have Be: "?B ea" unfolding ea_def by (rule E_B [OF b])
  have Bo: "?B oa" unfolding oa_def by (rule D_B [OF Be])
  have Be2: "?B eb" unfolding eb_def by (rule E_B [OF Bo])
  have len: "length ea = length x" "length oa = length x" "length eb = length x"
    by (simp_all add: ea_def oa_def eb_def E_len D_len)
  have "D eb = oa"
  proof (rule nth_equalityI)
    show "length (D eb) = length oa" by (simp add: D_len len)
  next
    fix i assume "i < length (D eb)"
    then have i: "i < length x" by (simp add: D_len len)
    have up: "D eb ! i \<le> oa ! i"
    proof -
      from D_ex [OF Be2, of i] i len obtain k
        where k: "k < length x" "i \<le> k + h" "k \<le> i + h" "D eb ! i = eb ! k" by auto
      have "eb ! k \<le> oa ! i"
        unfolding eb_def using Bo k i len by (intro E_le) simp_all
      then show ?thesis using k(4) by simp
    qed
    have low: "oa ! i \<le> D eb ! i"
    proof -
      from D_ex [OF Be, of i] i len obtain k
        where k: "k < length x" "i \<le> k + h" "k \<le> i + h" "oa ! i = ea ! k"
        unfolding oa_def by auto
      from E_ex [OF Bo, of k] k(1) len obtain j
        where j: "j < length x" "k \<le> j + h" "j \<le> k + h" "eb ! k = oa ! j"
        unfolding eb_def by auto
      have "ea ! k \<le> oa ! j"
        unfolding oa_def using Be j k len by (intro D_ge) simp_all
      then have "ea ! k \<le> eb ! k" using j(4) by simp
      moreover have "eb ! k \<le> D eb ! i"
        using Be2 k i len by (intro D_ge) simp_all
      ultimately show ?thesis using k(4) by simp
    qed
    from up low show "D eb ! i = oa ! i" by simp
  qed
  then show ?thesis by (simp add: eb_def oa_def ea_def)
qed

lemma DBL_MAX_large: "10 < DBL_MAX"
  by (simp add: DBL_MAX_def)

lemma small_in_range:
  assumes "0 \<le> v" "v < 10"
  shows "min DBL_MAX v = v" "max DBL_LOWEST v = v" "v \<noteq> DBL_MAX" "v \<noteq> DBL_LOWEST"
  using assms DBL_MAX_large by (auto simp: DBL_LOWEST_def min_def max_def)

text \<open>
  Claim C6 as stated, refuted for the flat element of size 2, which the constructor accepts:
  its window is \<open>{i - 1, i}\<close> for erosion and for dilation alike, so opening
  \<open>[5,0,5,5,0]\<close> gives \<open>[5,5,0,5,5]\<close> and opening that again gives \<open>[5,5,5,0,5]\<close>.
\<close>

theorem opening_flat_counterexample:
  "MorphologicalFilter_new OPENING 2
     = Inr \<lparr>mo_operation = OPENING, mo_structuringElement = [0, 0]\<rparr>
   \<and> opening \<lparr>mo_operation = OPENING, mo_structuringElement = [0, 0]\<rparr> [5, 0, 5, 5, 0]
       = Inr [5, 5, 0, 5, 5]
   \<and> opening \<lparr>mo_operation = OPENING, mo_structuringElement = [0, 0]\<rparr> [5, 5, 0, 5, 5]
       = Inr [5, 5, 5, 0, 5]"
  by (simp add: MorphologicalFilter_new_def createFlatElement_def opening_def erosion_def
      dilation_def erosionAt_def dilationAt_def MorphologicalFilter_new_element_def upt_rec
      small_in_range eval_nat_numeral)

text \<open>
  Claim C6, amended. For every flat (all-zero) structuring element of odd size and every
  signal of finite doubles, opening is idempotent: \<open>opening\<close> returns a signal, and
  \<open>opening\<close> of that signal returns it unchanged.
\<close>

theorem opening_flat_odd_idempotent:
  assumes "mo_structuringElement f = replicate n 0" "odd n" "\<forall>v\<in>set x. \<bar>v\<bar> \<le> DBL_MAX"
  shows "\<exists>y. opening f x = Inr y \<and> opening f y = Inr y"
proof -
  from assms(2) obtain h where n: "n = 2 * h + 1" by (auto elim: oddE)
  have b: "\<forall>v\<in>set x. DBL_LOWEST \<le> v \<and> v \<le> DBL_MAX"
    using assms(3) by (auto simp: DBL_LOWEST_def abs_le_iff)
  have ne: "mo_structuringElement f \<noteq> []" using assms(1) n by simp
  have o: "opening f z
      = Inr (map (dilationAt (replicate (2 * h + 1) 0)
                    (map (erosionAt (replicate (2 * h + 1) 0) z) [0..<length z]))
               [0..<length z])" for z
    using ne by (simp add: opening_def MorphologicalFilter_new_element_def dilation_def
        erosion_def assms(1) n del: replicate_Suc replicate.simps)
  show ?thesis
    unfolding o using flat_opening_idem [OF b, of h] by simp
qed


lemma opening_flat_example:
  "opening \<lparr>mo_operation = OPENING, mo_structuringElement = [0, 0, 0]\<rparr> [1, 5, 1, 5, 5, 5]
   = Inr [1, 1, 1, 5, 5, 5]"
  by (simp add: opening_def erosion_def dilation_def erosionAt_def dilationAt_def
      MorphologicalFilter_new_element_def upt_rec small_in_range)


theorem opening_flat_odd_idempotent_witness:
  "odd (3::nat)
   \<and> opening \<lparr>mo_operation = OPENING, mo_structuringElement = [0, 0, 0]\<rparr> [1, 5, 1, 5, 5, 5]
       = Inr [1, 1, 1, 5, 5, 5]
   \<and> opening \<lparr>mo_operation = OPENING, mo_structuringElement = [0, 0, 0]\<rparr> [1, 1, 1, 5, 5, 5]
       = Inr [1, 1, 1, 5, 5, 5]"
proof -
  let ?f = "\<lparr>mo_operation = OPENING, mo_structuringElement = [0, 0, 0]\<rparr>"
  have a: "mo_structuringElement ?f = replicate 3 0" by (simp add: eval_nat_numeral)
  have b: "odd (3::nat)" by simp
  have c: "\<forall>v\<in>set [1, 5, 1, 5, 5, 5 :: real]. \<bar>v\<bar> \<le> DBL_MAX"
    using DBL_MAX_large by simp
  from opening_flat_odd_idempotent [OF a b c]
  obtain y where y: "opening ?f [1, 5, 1, 5, 5, 5] = Inr y" "opening ?f y = Inr y"
    by blast
  from y(1) have "y = [1, 1, 1, 5, 5, 5]" by (simp add: opening_flat_example)
  with y b show ?thesis by simp
qed

section \<open>Gaussian elimination returns a solution\<close>

text \<open>The inner loops in closed form.\<close>

lemma fold_row_update:
  "distinct js \<Longrightarrow> j < length row \<Longrightarrow>
   length (fold (\<lambda>j row. row[j := h j (row ! j)]) js row) = length row
   \<and> fold (\<lambda>j row. row[j := h j (row ! j)]) js row ! j
       = (if j \<in> set js then h j (row ! j) else row ! j)"
proof (induction js arbitrary: row)
  case Nil
  then show ?case by simp
next
  case (Cons a js)
  from Cons.prems have d: "distinct js" "a \<notin> set js" by simp_all
  have n: "row[a := h a (row ! a)] ! j = (if a = j then h a (row ! a) else row ! j)"
    using Cons.prems(2) by (simp add: nth_list_update)
  from Cons.IH [OF d(1), of "row[a := h a (row ! a)]"] Cons.prems(2)
  have ih: "length (fold (\<lambda>j row. row[j := h j (row ! j)]) js (row[a := h a (row ! a)]))
        = length row"
    "fold (\<lambda>j row. row[j := h j (row ! j)]) js (row[a := h a (row ! a)]) ! j
       = (if j \<in> set js then h j (row[a := h a (row ! a)] ! j)
          else row[a := h a (row ! a)] ! j)"
    by simp_all
  show ?case
    using d(2) ih n by (cases "a = j") simp_all
qed

lemma fold_matrix_row:
  "k < length m \<Longrightarrow> i \<noteq> k \<Longrightarrow>
   fold (\<lambda>j m. m[k := (m ! k)[j := m ! k ! j - f * m ! i ! j]]) js m
   = m[k := fold (\<lambda>j row. row[j := row ! j - f * m ! i ! j]) js (m ! k)]"
proof (induction js arbitrary: m)
  case Nil
  then show ?case by simp
next
  case (Cons a js)
  let ?m1 = "m[k := (m ! k)[a := m ! k ! a - f * m ! i ! a]]"
  have 1: "k < length ?m1" using Cons.prems by simp
  have 2: "?m1 ! i = m ! i" using Cons.prems by simp
  have 3: "?m1 ! k = (m ! k)[a := m ! k ! a - f * m ! i ! a]" using Cons.prems by simp
  show ?case
    using Cons.IH [OF 1 Cons.prems(2)] by (simp add: 2 3)
qed

lemma fold_solution_update:
  fixes c :: "nat \<Rightarrow> real"
  shows "i \<notin> set js \<Longrightarrow> i < length s \<Longrightarrow>
   fold (\<lambda>j s. s[i := s ! i - c j * s ! j]) js s
   = s[i := s ! i - (\<Sum>j\<leftarrow>js. c j * s ! j)]"
proof (induction js arbitrary: s)
  case Nil
  then show ?case by simp
next
  case (Cons a js)
  let ?s1 = "s[i := s ! i - c a * s ! a]"
  have a: "a \<noteq> i" "i \<notin> set js" using Cons.prems by auto
  have u: "?s1 ! x = s ! x" if "x \<in> set js" for x
    using a(2) that by (metis nth_list_update_neq)
  have e: "(\<Sum>j\<leftarrow>js. c j * ?s1 ! j) = (\<Sum>j\<leftarrow>js. c j * s ! j)"
    by (intro arg_cong [where f = sum_list] map_cong refl) (simp add: u)
  show ?case
    using Cons.IH [OF a(2), of ?s1] Cons.prems(2)
    by (simp add: e algebra_simps)
qed

text \<open>One elimination of row \<open>k\<close> with pivot row \<open>i\<close>, and what it preserves.\<close>

lemma eliminateRow_effect:
  assumes "square n m" "i < k" "k < n"
  shows "eliminateRow n i k (m, r)
         = (m[k := map (\<lambda>j. if i \<le> j then m ! k ! j - (m ! k ! i / m ! i ! i) * m ! i ! j
                              else m ! k ! j) [0..<n]],
            r[k := r ! k - (m ! k ! i / m ! i ! i) * r ! i])"
proof -
  define f where "f = m ! k ! i / m ! i ! i"
  have k: "k < length m" "i \<noteq> k" "length (m ! k) = n"
    using assms by (auto simp: square_def)
  have row: "fold (\<lambda>j row. row[j := row ! j - f * m ! i ! j]) [i..<n] (m ! k)
             = map (\<lambda>j. if i \<le> j then m ! k ! j - f * m ! i ! j else m ! k ! j) [0..<n]"
  proof (rule nth_equalityI)
    show "length (fold (\<lambda>j row. row[j := row ! j - f * m ! i ! j]) [i..<n] (m ! k))
          = length (map (\<lambda>j. if i \<le> j then m ! k ! j - f * m ! i ! j else m ! k ! j) [0..<n])"
      using fold_row_update [of "[i..<n]" 0 "m ! k" "\<lambda>j v. v - f * m ! i ! j"] k assms
      by simp
  next
    fix j assume "j < length (fold (\<lambda>j row. row[j := row ! j - f * m ! i ! j]) [i..<n] (m ! k))"
    then have j: "j < n"
      using fold_row_update [of "[i..<n]" 0 "m ! k" "\<lambda>j v. v - f * m ! i ! j"] k assms
      by simp
    then show "fold (\<lambda>j row. row[j := row ! j - f * m ! i ! j]) [i..<n] (m ! k) ! j
          = map (\<lambda>j. if i \<le> j then m ! k ! j - f * m ! i ! j else m ! k ! j) [0..<n] ! j"
      using fold_row_update [of "[i..<n]" j "m ! k" "\<lambda>j v. v - f * m ! i ! j"] k
      by simp
  qed
  have "eliminateRow n i k (m, r)
        = (fold (\<lambda>j ma. ma[k := (ma ! k)[j := ma ! k ! j - f * ma ! i ! j]]) [i..<n] m,
           r[k := r ! k - f * r ! i])"
    unfolding eliminateRow_def f_def by (simp only: prod.case Let_def)
  then have "eliminateRow n i k (m, r)
        = (m[k := map (\<lambda>j. if i \<le> j then m ! k ! j - f * m ! i ! j else m ! k ! j) [0..<n]],
           r[k := r ! k - f * r ! i])"
    by (simp only: fold_matrix_row [OF k(1,2)] row)
  then show ?thesis
    unfolding f_def .
qed


lemma eliminateRow_step:
  assumes sq: "square n m" and lr: "length r = n" and ik: "i < k" "k < n"
    and tri: "triangular n i m" and piv: "m ! i ! i \<noteq> 0"
    and res: "eliminateRow n i k (m, r) = (m', r')"
  shows "square n m' \<and> length r' = n \<and> triangular n i m'
    \<and> (\<forall>p<n. p \<noteq> k \<longrightarrow> m' ! p = m ! p)
    \<and> m' ! k ! i = 0
    \<and> (\<forall>x. solves n m' r' x \<longrightarrow> solves n m r x)"
proof -
  define f where "f = m ! k ! i / m ! i ! i"
  from eliminateRow_effect [OF sq ik, of r, folded f_def] res
  have m': "m' = m[k := map (\<lambda>j. if i \<le> j then m ! k ! j - f * m ! i ! j else m ! k ! j) [0..<n]]"
    and r': "r' = r[k := r ! k - f * r ! i]"
    by simp_all
  have lm: "length m = n" and rows: "\<And>p. p < n \<Longrightarrow> length (m ! p) = n"
    using sq by (auto simp: square_def)
  have other: "m' ! p = m ! p" if "p \<noteq> k" for p
    using that by (simp add: m')
  have rowk: "m' ! k ! j = (if i \<le> j then m ! k ! j - f * m ! i ! j else m ! k ! j)" if "j < n" for j
    using that ik lm by (simp add: m')
  have zero: "m ! i ! j = 0" if "j < i" for j
    using tri ik that by (auto simp: triangular_def)
  have rowk': "m' ! k ! j = m ! k ! j - f * m ! i ! j" if "j < n" for j
    using rowk [OF that] zero [of j] by (cases "i \<le> j") simp_all
  have 1: "square n m'"
    unfolding square_def
  proof (intro conjI allI impI)
    show "length m' = n" by (simp add: m' lm)
    fix p assume "p < n"
    then show "length (m' ! p) = n"
      using rows [of p] lm by (cases "p = k") (simp_all add: m')
  qed
  have 2: "length r' = n" by (simp add: r' lr)
  have 3: "triangular n i m'"
    unfolding triangular_def
  proof (intro allI impI)
    fix p c assume p: "p < n" and c: "c < p \<and> c < i"
    show "m' ! p ! c = 0"
    proof (cases "p = k")
      case True
      have "c < n" using c p by simp
      from rowk [OF this] c have "m' ! k ! c = m ! k ! c" by simp
      also have "\<dots> = 0" using tri ik c True by (auto simp: triangular_def)
      finally show ?thesis using True by simp
    next
      case False
      then show ?thesis using tri p c by (auto simp: other triangular_def)
    qed
  qed
  have 5: "m' ! k ! i = 0"
    using rowk [of i] ik piv by (simp add: f_def)
  have 6: "solves n m r x" if s: "solves n m' r' x" for x
    unfolding solves_def
  proof (intro allI impI)
    fix p assume p: "p < n"
    have eq_i: "(\<Sum>j<n. m ! i ! j * x ! j) = r ! i"
    proof -
      have "i < n" "i \<noteq> k" using ik by simp_all
      with s have "(\<Sum>j<n. m' ! i ! j * x ! j) = r' ! i" by (simp add: solves_def)
      then show ?thesis using \<open>i \<noteq> k\<close> by (simp add: other r')
    qed
    show "(\<Sum>j<n. m ! p ! j * x ! j) = r ! p"
    proof (cases "p = k")
      case False
      from s p have "(\<Sum>j<n. m' ! p ! j * x ! j) = r' ! p" by (simp add: solves_def)
      then show ?thesis using False by (simp add: other r')
    next
      case True
      from s ik have "(\<Sum>j<n. m' ! k ! j * x ! j) = r' ! k" by (simp add: solves_def)
      moreover have "(\<Sum>j<n. m' ! k ! j * x ! j)
          = (\<Sum>j<n. m ! k ! j * x ! j) - f * (\<Sum>j<n. m ! i ! j * x ! j)"
      proof -
        have "(\<Sum>j<n. m' ! k ! j * x ! j) = (\<Sum>j<n. m ! k ! j * x ! j - f * (m ! i ! j * x ! j))"
          by (rule sum.cong) (simp_all add: rowk' algebra_simps)
        then show ?thesis by (simp add: sum_subtractf sum_distrib_left)
      qed
      moreover have "r' ! k = r ! k - f * r ! i" using ik lr by (simp add: r')
      ultimately show ?thesis using eq_i True by simp
    qed
  qed
  show ?thesis using 1 2 3 5 6 other by blast
qed


lemma eliminate_loop:
  assumes sq: "square n m" and lr: "length r = n"
    and tri: "triangular n i m" and piv: "m ! i ! i \<noteq> 0"
    and k: "Suc i \<le> k" "k \<le> n"
  shows "\<exists>m' r'. fold (eliminateRow n i) [Suc i..<k] (m, r) = (m', r')
    \<and> square n m' \<and> length r' = n \<and> triangular n i m'
    \<and> (\<forall>p<n. p \<le> i \<or> k \<le> p \<longrightarrow> m' ! p = m ! p)
    \<and> (\<forall>p. i < p \<and> p < k \<longrightarrow> m' ! p ! i = 0)
    \<and> (\<forall>x. solves n m' r' x \<longrightarrow> solves n m r x)"
  using k
proof (induction k rule: nat_induct_at_least)
  case base
  show ?case using sq lr tri by simp
next
  case (Suc k)
  then have kn: "k < n" "i < k" by simp_all
  from Suc.IH kn obtain m1 r1 where
    f: "fold (eliminateRow n i) [Suc i..<k] (m, r) = (m1, r1)"
    and sq1: "square n m1" and lr1: "length r1 = n" and tri1: "triangular n i m1"
    and same1: "\<And>p. p < n \<Longrightarrow> p \<le> i \<or> k \<le> p \<Longrightarrow> m1 ! p = m ! p"
    and zero1: "\<And>p. i < p \<Longrightarrow> p < k \<Longrightarrow> m1 ! p ! i = 0"
    and sol1: "\<And>x. solves n m1 r1 x \<Longrightarrow> solves n m r x"
    by auto
  have piv1: "m1 ! i ! i \<noteq> 0"
    using same1 [of i] kn piv by simp
  obtain m2 r2 where e: "eliminateRow n i k (m1, r1) = (m2, r2)"
    by (cases "eliminateRow n i k (m1, r1)") auto
  from eliminateRow_step [OF sq1 lr1 kn(2) kn(1) tri1 piv1 e]
  have sq2: "square n m2" and lr2: "length r2 = n" and tri2: "triangular n i m2"
    and same2: "\<And>p. p < n \<Longrightarrow> p \<noteq> k \<Longrightarrow> m2 ! p = m1 ! p"
    and zero2: "m2 ! k ! i = 0"
    and sol2: "\<And>x. solves n m2 r2 x \<Longrightarrow> solves n m1 r1 x"
    by auto
  have u: "[Suc i..<Suc k] = [Suc i..<k] @ [k]"
    using kn by simp
  have "fold (eliminateRow n i) [Suc i..<Suc k] (m, r) = (m2, r2)"
    unfolding u by (simp add: f e)
  moreover have "m2 ! p = m ! p" if "p < n" "p \<le> i \<or> Suc k \<le> p" for p
    using that same1 [of p] same2 [of p] kn by auto
  moreover have "m2 ! p ! i = 0" if "i < p" "p < Suc k" for p
  proof (cases "p = k")
    case True
    then show ?thesis using zero2 by simp
  next
    case False
    then have "p < k" using that by simp
    then show ?thesis using zero1 [of p] same2 [of p] that kn False by simp
  qed
  ultimately show ?case
    using sq2 lr2 tri2 sol1 sol2 by auto
qed

lemma findMaxRow_bounds:
  assumes "i < n"
  shows "i \<le> findMaxRow m n i \<and> findMaxRow m n i < n"
proof -
  have "i \<le> a \<Longrightarrow> a < n \<Longrightarrow> \<forall>k\<in>set ks. i \<le> k \<and> k < n \<Longrightarrow>
      i \<le> fold (\<lambda>k maxRow. if \<bar>m ! k ! i\<bar> > \<bar>m ! maxRow ! i\<bar> then k else maxRow) ks a
      \<and> fold (\<lambda>k maxRow. if \<bar>m ! k ! i\<bar> > \<bar>m ! maxRow ! i\<bar> then k else maxRow) ks a < n"
    for ks a
    by (induction ks arbitrary: a) auto
  from this [of i "[i + 1..<n]"] assms show ?thesis
    by (simp add: findMaxRow_def)
qed

lemma swapRows_nth:
  assumes "i < length xs" "p < length xs"
  shows "length (swapRows xs i p) = length xs"
    and "swapRows xs i p ! i = xs ! p"
    and "swapRows xs i p ! p = xs ! i"
    and "q \<noteq> i \<Longrightarrow> q \<noteq> p \<Longrightarrow> swapRows xs i p ! q = xs ! q"
  using assms by (auto simp: swapRows_def nth_list_update)

text \<open>The row exchange, then the whole forward pass by induction on the remaining columns.\<close>

lemma swap_step:
  assumes sq: "square n m" and lr: "length r = n" and tri: "triangular n i m"
    and i: "i < n" and p: "i \<le> p" "p < n"
  shows "square n (swapRows m i p) \<and> length (swapRows r i p) = n
    \<and> triangular n i (swapRows m i p)
    \<and> (\<forall>q<i. swapRows m i p ! q = m ! q)
    \<and> (\<forall>x. solves n (swapRows m i p) (swapRows r i p) x \<longrightarrow> solves n m r x)"
proof -
  have lm: "length m = n" and rows: "\<And>q. q < n \<Longrightarrow> length (m ! q) = n"
    using sq by (auto simp: square_def)
  note sm = swapRows_nth [of i m p] and sr = swapRows_nth [of i r p]
  have il: "i < length m" "p < length m" "i < length r" "p < length r"
    using i p lm lr by simp_all
  have nthm: "swapRows m i p ! q = (if q = i then m ! p else if q = p then m ! i else m ! q)" for q
    using sm(2-4) [OF il(1,2)] by auto
  have nthr: "swapRows r i p ! q = (if q = i then r ! p else if q = p then r ! i else r ! q)" for q
    using sr(2-4) [OF il(3,4)] by auto
  have 1: "square n (swapRows m i p)"
    using sm(1) [OF il(1,2)] lm rows i p by (auto simp: square_def nthm)
  have 2: "length (swapRows r i p) = n"
    using sr(1) [OF il(3,4)] lr by simp
  have 3: "triangular n i (swapRows m i p)"
    using tri i p by (auto simp: triangular_def nthm)
  have 4: "\<forall>q<i. swapRows m i p ! q = m ! q"
    using p by (auto simp: nthm)
  have 5: "solves n m r x" if s: "solves n (swapRows m i p) (swapRows r i p) x" for x
    unfolding solves_def
  proof (intro allI impI)
    fix q assume q: "q < n"
    define q' where "q' = (if q = i then p else if q = p then i else q)"
    have q': "q' < n" using q i p by (simp add: q'_def)
    have "swapRows m i p ! q' = m ! q" "swapRows r i p ! q' = r ! q"
      by (auto simp: nthm nthr q'_def)
    with s q' show "(\<Sum>j<n. m ! q ! j * x ! j) = r ! q"
      by (auto simp: solves_def)
  qed
  show ?thesis using 1 2 3 4 5 by blast
qed

lemma forwardElimination_correct:
  assumes "forwardElimination n [i..<n] (m, r) = Inr (m', r')"
    and "square n m" "length r = n" "triangular n i m" "\<forall>p<i. m ! p ! p \<noteq> 0" "i \<le> n"
  shows "square n m' \<and> length r' = n \<and> triangular n n m' \<and> (\<forall>p<n. m' ! p ! p \<noteq> 0)
    \<and> (\<forall>x. solves n m' r' x \<longrightarrow> solves n m r x)"
  using assms
proof (induction "n - i" arbitrary: i m r)
  case 0
  then have "i = n" by simp
  with 0 show ?case by simp
next
  case (Suc d)
  then have i: "i < n" by simp
  have u: "[i..<n] = i # [Suc i..<n]" using i by (simp add: upt_conv_Cons)
  define p where "p = findMaxRow m n i"
  have p: "i \<le> p" "p < n" using findMaxRow_bounds [OF i, of m] by (simp_all add: p_def)
  define ms where "ms = (if p \<noteq> i then swapRows m i p else m)"
  define rs where "rs = (if p \<noteq> i then swapRows r i p else r)"
  have "square n ms \<and> length rs = n \<and> triangular n i ms \<and> (\<forall>q<i. ms ! q = m ! q)
      \<and> (\<forall>x. solves n ms rs x \<longrightarrow> solves n m r x)"
  proof (cases "p = i")
    case True
    then have "ms = m" "rs = r" by (simp_all add: ms_def rs_def)
    then show ?thesis using Suc.prems(2,3,4) by simp
  next
    case False
    then have "ms = swapRows m i p" "rs = swapRows r i p" by (simp_all add: ms_def rs_def)
    then show ?thesis using swap_step [OF Suc.prems(2,3,4) i p] by simp
  qed
  then have sqs: "square n ms" and lrs: "length rs = n" and tris: "triangular n i ms"
    and sames: "\<And>q. q < i \<Longrightarrow> ms ! q = m ! q"
    and sols: "\<And>x. solves n ms rs x \<Longrightarrow> solves n m r x"
    by blast+
  have step: "forwardElimination n (i # [Suc i..<n]) (m, r)
      = (if \<bar>ms ! i ! i\<bar> < 1 / 10 ^ 12 then Inl Runtime_error
         else forwardElimination n [Suc i..<n]
                (fold (eliminateRow n i) [Suc i..<n] (ms, rs)))"
    by (simp only: forwardElimination.simps prod.case Let_def p_def ms_def rs_def Suc_eq_plus1)
  from Suc.prems(1) [unfolded u step]
  have big: "\<not> \<bar>ms ! i ! i\<bar> < 1 / 10 ^ 12"
    and rest: "forwardElimination n [Suc i..<n] (fold (eliminateRow n i) [Suc i..<n] (ms, rs))
               = Inr (m', r')"
    by (simp_all split: if_splits)
  have piv: "ms ! i ! i \<noteq> 0" using big by auto
  have si: "Suc i \<le> n" "n \<le> n" using i by simp_all
  from eliminate_loop [OF sqs lrs tris piv si] obtain m1 r1 where
    c: "fold (eliminateRow n i) [Suc i..<n] (ms, rs) = (m1, r1)
    \<and> square n m1 \<and> length r1 = n \<and> triangular n i m1
    \<and> (\<forall>p<n. p \<le> i \<or> n \<le> p \<longrightarrow> m1 ! p = ms ! p)
    \<and> (\<forall>p. i < p \<and> p < n \<longrightarrow> m1 ! p ! i = 0)
    \<and> (\<forall>x. solves n m1 r1 x \<longrightarrow> solves n ms rs x)"
    by blast
  then have f: "fold (eliminateRow n i) [Suc i..<n] (ms, rs) = (m1, r1)"
    and sq1: "square n m1" and lr1: "length r1 = n" and tri1: "triangular n i m1"
    and same1: "\<And>q. q < n \<Longrightarrow> q \<le> i \<Longrightarrow> m1 ! q = ms ! q"
    and zero1: "\<And>q. i < q \<Longrightarrow> q < n \<Longrightarrow> m1 ! q ! i = 0"
    and sol1: "\<And>x. solves n m1 r1 x \<Longrightarrow> solves n ms rs x"
    by blast+
  have tri1': "triangular n (Suc i) m1"
    unfolding triangular_def
  proof (intro allI impI)
    fix q c assume q: "q < n" and c: "c < q \<and> c < Suc i"
    show "m1 ! q ! c = 0"
    proof (cases "c = i")
      case True
      then show ?thesis using zero1 [of q] q c by simp
    next
      case False
      then show ?thesis using tri1 q c by (auto simp: triangular_def)
    qed
  qed
  have d1: "\<forall>q<Suc i. m1 ! q ! q \<noteq> 0"
  proof (intro allI impI)
    fix q assume q: "q < Suc i"
    show "m1 ! q ! q \<noteq> 0"
    proof (cases "q = i")
      case True
      then show ?thesis using same1 [of i] i piv by simp
    next
      case False
      then have "q < i" using q by simp
      then show ?thesis using same1 [of q] sames [of q] i Suc.prems(5) by simp
    qed
  qed
  have "d = n - Suc i" using Suc.hyps(2) by simp
  from Suc.hyps(1) [OF this rest [unfolded f] sq1 lr1 tri1' d1] i
  have "square n m' \<and> length r' = n \<and> triangular n n m' \<and> (\<forall>p<n. m' ! p ! p \<noteq> 0)
    \<and> (\<forall>x. solves n m' r' x \<longrightarrow> solves n m1 r1 x)"
    by simp
  then show ?case using sol1 sols by blast
qed

text \<open>Back substitution solves the triangular system it is given.\<close>

lemma backStep:
  fixes r s :: "real list" and m :: "real list list"
  assumes "i < length s"
  shows "(let solution = s[i := r ! i];
              solution = fold (\<lambda>j s. s[i := s ! i - m ! i ! j * s ! j]) [i + 1..<n] solution
          in solution[i := solution ! i / m ! i ! i])
         = s[i := (r ! i - (\<Sum>j = Suc i..<n. m ! i ! j * s ! j)) / m ! i ! i]"
proof -
  let ?s1 = "s[i := r ! i]"
  have ni: "i \<notin> set [i + 1..<n]" by simp
  have l1: "i < length ?s1" using assms by simp
  have e: "(\<Sum>j\<leftarrow>[i + 1..<n]. m ! i ! j * ?s1 ! j) = (\<Sum>j = Suc i..<n. m ! i ! j * s ! j)"
  proof -
    have "(\<Sum>j\<leftarrow>[i + 1..<n]. m ! i ! j * ?s1 ! j) = (\<Sum>j\<leftarrow>[i + 1..<n]. m ! i ! j * s ! j)"
      by (intro arg_cong [where f = sum_list] map_cong refl) simp
    also have "\<dots> = (\<Sum>j = Suc i..<n. m ! i ! j * s ! j)"
      by (simp add: interv_sum_list_conv_sum_set_nat)
    finally show ?thesis .
  qed
  have "fold (\<lambda>j s. s[i := s ! i - m ! i ! j * s ! j]) [i + 1..<n] ?s1
        = ?s1[i := ?s1 ! i - (\<Sum>j\<leftarrow>[i + 1..<n]. m ! i ! j * ?s1 ! j)]"
    by (rule fold_solution_update [OF ni l1])
  also have "\<dots> = s[i := r ! i - (\<Sum>j = Suc i..<n. m ! i ! j * s ! j)]"
    unfolding e using assms by simp
  finally show ?thesis
    using assms by (simp add: Let_def)
qed

lemma backSubstitution_upper:
  fixes r :: "real list" and m :: "real list list" and n :: nat
  assumes d: "\<forall>p<n. m ! p ! p \<noteq> 0"
  defines "step \<equiv> \<lambda>i solution.
             let solution = solution[i := r ! i];
                 solution = fold (\<lambda>j s. s[i := s ! i - m ! i ! j * s ! j]) [i + 1..<n] solution
             in solution[i := solution ! i / m ! i ! i]"
  shows "k \<le> n \<Longrightarrow>
         length (fold step (rev [k..<n]) (replicate n 0)) = n
         \<and> (\<forall>p. k \<le> p \<and> p < n \<longrightarrow>
              (\<Sum>j = p..<n. m ! p ! j * fold step (rev [k..<n]) (replicate n 0) ! j) = r ! p)"
proof (induction "n - k" arbitrary: k)
  case 0
  then show ?case by simp
next
  case (Suc d)
  then have k: "k < n" by simp
  define s' where "s' = fold step (rev [Suc k..<n]) (replicate n 0)"
  have "d = n - Suc k" "Suc k \<le> n" using Suc.hyps(2) k by simp_all
  from Suc.hyps(1) [OF this]
  have ls': "length s' = n"
    and ih: "\<And>p. Suc k \<le> p \<Longrightarrow> p < n \<Longrightarrow> (\<Sum>j = p..<n. m ! p ! j * s' ! j) = r ! p"
    unfolding s'_def by simp_all
  define v where "v = (r ! k - (\<Sum>j = Suc k..<n. m ! k ! j * s' ! j)) / m ! k ! k"
  have u: "rev [k..<n] = rev [Suc k..<n] @ [k]"
    using k by (simp add: upt_conv_Cons)
  have "fold step (rev [k..<n]) (replicate n 0) = step k s'"
    unfolding u s'_def by simp
  also have "step k s' = s'[k := v]"
    unfolding step_def v_def by (rule backStep) (simp add: k ls')
  finally have s: "fold step (rev [k..<n]) (replicate n 0) = s'[k := v]" .
  have "(\<Sum>j = p..<n. m ! p ! j * s'[k := v] ! j) = r ! p" if p: "k \<le> p" "p < n" for p
  proof (cases "p = k")
    case True
    have "(\<Sum>j = k..<n. m ! k ! j * s'[k := v] ! j)
          = m ! k ! k * s'[k := v] ! k + (\<Sum>j = Suc k..<n. m ! k ! j * s'[k := v] ! j)"
      using k by (simp add: sum.atLeast_Suc_lessThan)
    also have "(\<Sum>j = Suc k..<n. m ! k ! j * s'[k := v] ! j)
          = (\<Sum>j = Suc k..<n. m ! k ! j * s' ! j)"
      by (rule sum.cong) simp_all
    also have "m ! k ! k * s'[k := v] ! k = r ! k - (\<Sum>j = Suc k..<n. m ! k ! j * s' ! j)"
      using d k ls' by (simp add: v_def)
    finally show ?thesis using True by simp
  next
    case False
    then have p': "Suc k \<le> p" using p by simp
    have "(\<Sum>j = p..<n. m ! p ! j * s'[k := v] ! j) = (\<Sum>j = p..<n. m ! p ! j * s' ! j)"
      using p' by (intro sum.cong) simp_all
    then show ?thesis using ih [OF p' p(2)] by simp
  qed
  then show ?case
    unfolding s using ls' by simp
qed

lemma backSubstitution_solves:
  assumes tri: "triangular n n m" and d: "\<forall>p<n. m ! p ! p \<noteq> 0"
  shows "length (backSubstitution n m r) = n \<and> solves n m r (backSubstitution n m r)"
proof -
  define x where "x = backSubstitution n m r"
  from backSubstitution_upper [OF d, of 0 r]
  have l: "length x = n"
    and up: "\<And>p. p < n \<Longrightarrow> (\<Sum>j = p..<n. m ! p ! j * x ! j) = r ! p"
    unfolding x_def backSubstitution_def by simp_all
  have "(\<Sum>j<n. m ! p ! j * x ! j) = r ! p" if p: "p < n" for p
  proof -
    have "(\<Sum>j<n. m ! p ! j * x ! j)
          = (\<Sum>j = 0..<p. m ! p ! j * x ! j) + (\<Sum>j = p..<n. m ! p ! j * x ! j)"
      using p by (simp add: lessThan_atLeast0 sum.atLeastLessThan_concat)
    also have "(\<Sum>j = 0..<p. m ! p ! j * x ! j) = 0"
      using tri p by (intro sum.neutral) (auto simp: triangular_def)
    finally show ?thesis using up [OF p] by simp
  qed
  then show ?thesis
    using l by (simp add: solves_def x_def)
qed

lemma gaussElimination_solves:
  assumes "gaussElimination m r = Inr x" and sq: "square (length m) m" and lr: "length r = length m"
  shows "length x = length m \<and> solves (length m) m r x"
proof -
  define n where "n = length m"
  from assms(1) obtain m' r' where
    fe: "forwardElimination n [0..<n] (m, r) = Inr (m', r')" and x: "x = backSubstitution n m' r'"
    by (auto simp: gaussElimination_def n_def Let_def split: sum.splits)
  have t0: "triangular n 0 m" by (simp add: triangular_def)
  from forwardElimination_correct [OF fe sq [folded n_def] lr [folded n_def] t0]
  have tri: "triangular n n m'" and d: "\<forall>p<n. m' ! p ! p \<noteq> 0"
    and sol: "\<And>x. solves n m' r' x \<Longrightarrow> solves n m r x"
    by simp_all
  from backSubstitution_solves [OF tri d, of r'] sol
  show ?thesis by (simp add: x n_def)
qed

section \<open>Savitzky-Golay: the taps reproduce polynomials\<close>

text \<open>
  The taps computed from the solution satisfy the moment conditions: their weighted power
  sums over the offsets are 1 for the power 0 and 0 for the powers up to the order.
\<close>

lemma fold_add_list: "fold (\<lambda>k s. s + g k) ks (a::real) = a + sum_list (map g ks)"
  by (induction ks arbitrary: a) (simp_all add: algebra_simps)

lemma fold_add_upto:
  "fold (\<lambda>k s. s + g k) [i..j] (0::real) = (\<Sum>k = i..j. g k)"
  by (simp add: fold_add_list sum_set_upto_conv_sum_list_int [symmetric])

lemma fold_add_upt0: "fold (\<lambda>i y. y + g i) [0..<n] (0::real) = (\<Sum>i<n. g i)"
  by (simp add: fold_add_list interv_sum_list_conv_sum_set_nat lessThan_atLeast0)

lemma sum_offsets:
  fixes g :: "int \<Rightarrow> real"
  shows "(\<Sum>k = - int h..int h. g k) = (\<Sum>i<2 * h + 1. g (int i - int h))"
  by (rule sum.reindex_bij_witness [where i = "\<lambda>i. int i - int h" and j = "\<lambda>k. nat (k + int h)"])
    auto

lemma momentMatrix_nth:
  assumes "p \<le> K" "q \<le> K"
  shows "momentMatrix h K ! p ! q = (\<Sum>i<2 * h + 1. real_of_int (int i - int h) ^ (p + q))"
  using assms by (simp add: momentMatrix_def fold_add_upto sum_offsets del: upt_Suc)

lemma momentMatrix_square: "square (K + 1) (momentMatrix h K)"
  by (simp add: square_def momentMatrix_def del: upt_Suc)

lemma calculateCoefficients_moments:
  assumes cc: "calculateCoefficients f = Inr f'" and odd: "odd (sg_windowSize f)"
    and l: "l \<le> sg_polyOrder f"
  shows "sg_windowSize f' = sg_windowSize f \<and> length (sg_coefficients f') = sg_windowSize f
    \<and> (\<Sum>i<sg_windowSize f. sg_coefficients f' ! i
            * real_of_int (int i - int (sg_windowSize f div 2)) ^ l)
        = (if l = 0 then 1 else 0)"
proof -
  define W where "W = sg_windowSize f"
  define K where "K = sg_polyOrder f"
  define h where "h = W div 2"
  have W: "W = 2 * h + 1" using odd by (auto simp: W_def h_def elim: oddE)
  define M where "M = momentMatrix h K"
  define rhs where "rhs = (replicate (K + 1) (0::real))[0 := 1]"
  define kk where "kk i = real_of_int (int i - int h)" for i
  from cc obtain c where g: "gaussElimination M rhs = Inr c"
    and co: "sg_coefficients f' = map (\<lambda>i. \<Sum>j<K + 1. c ! j * kk i ^ j) [0..<W]"
    and w: "sg_windowSize f' = W"
    by (auto simp: calculateCoefficients_def Let_def W_def K_def h_def M_def rhs_def kk_def
        fold_add_upt0 split: sum.splits simp del: upt_Suc)
  have lM: "length M = K + 1" by (simp add: M_def momentMatrix_def del: upt_Suc)
  have sq: "square (length M) M" using momentMatrix_square [of K h] by (simp add: lM M_def [symmetric])
  have lr: "length rhs = length M" by (simp add: rhs_def lM)
  from gaussElimination_solves [OF g sq lr]
  have sol: "solves (K + 1) M rhs c" by (simp add: lM)
  have rl: "rhs ! l = (if l = 0 then 1 else 0)"
    using l by (simp add: rhs_def K_def nth_list_update)
  have "(\<Sum>i<W. sg_coefficients f' ! i * kk i ^ l)
        = (\<Sum>i<W. (\<Sum>j<K + 1. c ! j * kk i ^ j) * kk i ^ l)"
    by (rule sum.cong) (simp_all add: co del: upt_Suc)
  also have "\<dots> = (\<Sum>i<W. \<Sum>j<K + 1. c ! j * kk i ^ (l + j))"
  proof (rule sum.cong [OF refl])
    fix i
    show "(\<Sum>j<K + 1. c ! j * kk i ^ j) * kk i ^ l = (\<Sum>j<K + 1. c ! j * kk i ^ (l + j))"
      unfolding sum_distrib_right by (rule sum.cong [OF refl]) (simp add: power_add)
  qed
  also have "\<dots> = (\<Sum>j<K + 1. \<Sum>i<W. c ! j * kk i ^ (l + j))"
    by (rule sum.swap)
  also have "\<dots> = (\<Sum>j<K + 1. M ! l ! j * c ! j)"
  proof (rule sum.cong)
    fix j assume "j \<in> {..<K + 1}"
    then have j: "j \<le> K" by simp
    have "M ! l ! j = (\<Sum>i<W. kk i ^ (l + j))"
      unfolding M_def W kk_def using l j by (intro momentMatrix_nth) (simp_all add: K_def)
    then show "(\<Sum>i<W. c ! j * kk i ^ (l + j)) = M ! l ! j * c ! j"
      by (simp add: sum_distrib_left algebra_simps)
  qed simp
  also have "\<dots> = rhs ! l"
    using sol l by (simp add: solves_def K_def)
  finally have "(\<Sum>i<W. sg_coefficients f' ! i * kk i ^ l) = (if l = 0 then 1 else 0)"
    using rl by simp
  then show ?thesis
    using w by (simp add: co W_def [symmetric] h_def [symmetric] kk_def del: upt_Suc)
qed

text \<open>
  At an interior index no read is reflected, so the output is the plain convolution, and
  the moment conditions give back the value of any polynomial of low enough degree.
\<close>

lemma applyFilterLoop_interior:
  assumes "\<forall>i\<in>set is. 0 \<le> int c - int (sg_windowSize f div 2) + int i
              \<and> int c - int (sg_windowSize f div 2) + int i < int (length x)"
  shows "applyFilterLoop f x c is acc
         = Inr (acc + (\<Sum>i\<leftarrow>is. sg_coefficients f ! i
                         * x ! nat (int c - int (sg_windowSize f div 2) + int i)))"
  using assms
proof (induction "is" arbitrary: acc)
  case Nil
  then show ?case by simp
next
  case (Cons i "is")
  then have "getReflectedValue x (int c - int (sg_windowSize f div 2) + int i)
             = Inr (x ! nat (int c - int (sg_windowSize f div 2) + int i))"
    by (simp add: getReflectedValue_def readAt_def)
  with Cons show ?case by (simp add: Let_def algebra_simps)
qed

lemma applyFilter_interior:
  assumes W: "sg_windowSize f = 2 * h + 1" and c: "h \<le> c" "c + h < length x"
  shows "applyFilter f x c = Inr (\<Sum>i<2 * h + 1. sg_coefficients f ! i * x ! (c + i - h))"
proof -
  have hd: "sg_windowSize f div 2 = h" using W by simp
  have idx: "nat (int c - int h + int i) = c + i - h" for i
    using c by linarith
  have pre: "\<forall>i\<in>set [0..<sg_windowSize f]. 0 \<le> int c - int (sg_windowSize f div 2) + int i
              \<and> int c - int (sg_windowSize f div 2) + int i < int (length x)"
    unfolding hd using c W by auto
  have "applyFilter f x c
        = Inr (0 + (\<Sum>i\<leftarrow>[0..<sg_windowSize f]. sg_coefficients f ! i
                         * x ! nat (int c - int (sg_windowSize f div 2) + int i)))"
    unfolding applyFilter_def by (rule applyFilterLoop_interior [OF pre])
  then have "applyFilter f x c
        = Inr (0 + (\<Sum>i\<leftarrow>[0..<sg_windowSize f]. sg_coefficients f ! i * x ! (c + i - h)))"
    by (simp only: hd idx)
  then have "applyFilter f x c
        = Inr (\<Sum>i\<leftarrow>[0..<2 * h + 1]. sg_coefficients f ! i * x ! (c + i - h))"
    by (simp only: W add_0)
  then show ?thesis
    by (simp add: interv_sum_list_conv_sum_set_nat lessThan_atLeast0 del: upt_Suc)
qed

lemma sum_rearrange:
  fixes q a :: "nat \<Rightarrow> real" and G d :: "nat \<Rightarrow> nat \<Rightarrow> real" and k :: "nat \<Rightarrow> real"
  shows "(\<Sum>i\<in>A. q i * (\<Sum>m\<in>B. a m * (\<Sum>l\<in>C m. G m l * k i ^ l * d m l)))
         = (\<Sum>m\<in>B. a m * (\<Sum>l\<in>C m. G m l * d m l * (\<Sum>i\<in>A. q i * k i ^ l)))"
proof -
  have "(\<Sum>i\<in>A. q i * (\<Sum>m\<in>B. a m * (\<Sum>l\<in>C m. G m l * k i ^ l * d m l)))
        = (\<Sum>i\<in>A. \<Sum>m\<in>B. \<Sum>l\<in>C m. a m * (G m l * d m l * (q i * k i ^ l)))"
    by (simp add: sum_distrib_left algebra_simps)
  also have "\<dots> = (\<Sum>m\<in>B. \<Sum>i\<in>A. \<Sum>l\<in>C m. a m * (G m l * d m l * (q i * k i ^ l)))"
    by (rule sum.swap)
  also have "\<dots> = (\<Sum>m\<in>B. \<Sum>l\<in>C m. \<Sum>i\<in>A. a m * (G m l * d m l * (q i * k i ^ l)))"
    by (rule sum.cong [OF refl]) (rule sum.swap)
  also have "\<dots> = (\<Sum>m\<in>B. a m * (\<Sum>l\<in>C m. G m l * d m l * (\<Sum>i\<in>A. q i * k i ^ l)))"
    by (simp add: sum_distrib_left)
  finally show ?thesis .
qed

lemma interior_polynomial_value:
  fixes q a :: "nat \<Rightarrow> real" and x :: "real list"
  assumes poly: "\<forall>n<length x. x ! n = (\<Sum>m<L. a m * real n ^ m)"
    and mom: "\<forall>l<L. (\<Sum>i<2 * h + 1. q i * real_of_int (int i - int h) ^ l) = (if l = 0 then 1 else 0)"
    and c: "h \<le> c" "c + h < length x"
  shows "(\<Sum>i<2 * h + 1. q i * x ! (c + i - h)) = x ! c"
proof -
  define kk where "kk i = real_of_int (int i - int h)" for i
  have xi: "x ! (c + i - h)
      = (\<Sum>m<L. a m * (\<Sum>l\<in>{..m}. real (m choose l) * kk i ^ l * real c ^ (m - l)))"
    if "i < 2 * h + 1" for i
  proof -
    have n: "c + i - h < length x" using that c by linarith
    have r: "real (c + i - h) = kk i + real c"
      unfolding kk_def using c by (simp add: of_nat_diff)
    show ?thesis
      using poly n by (simp add: r binomial_ring)
  qed
  have "(\<Sum>i<2 * h + 1. q i * x ! (c + i - h))
      = (\<Sum>i<2 * h + 1. q i * (\<Sum>m<L. a m
            * (\<Sum>l\<in>{..m}. real (m choose l) * kk i ^ l * real c ^ (m - l))))"
    by (rule sum.cong [OF refl]) (simp add: xi del: sum.lessThan_Suc)
  also have "\<dots> = (\<Sum>m<L. a m * (\<Sum>l\<in>{..m}. real (m choose l) * real c ^ (m - l)
            * (\<Sum>i<2 * h + 1. q i * kk i ^ l)))"
    by (rule sum_rearrange)
  also have "\<dots> = (\<Sum>m<L. a m * (\<Sum>l\<in>{..m}. real (m choose l) * real c ^ (m - l)
            * (if l = 0 then 1 else 0)))"
  proof (rule sum.cong [OF refl], rule arg_cong [where f = "\<lambda>t. _ * t"], rule sum.cong [OF refl])
    fix m l assume "m \<in> {..<L}" "l \<in> {..m}"
    then have "l < L" by simp
    with mom show "real (m choose l) * real c ^ (m - l) * (\<Sum>i<2 * h + 1. q i * kk i ^ l)
        = real (m choose l) * real c ^ (m - l) * (if l = 0 then 1 else 0)"
      by (simp add: kk_def del: sum.lessThan_Suc)
  qed
  also have "\<dots> = (\<Sum>m<L. a m * real c ^ m)"
  proof (rule sum.cong [OF refl])
    fix m
    have "(\<Sum>l\<in>{..m}. real (m choose l) * real c ^ (m - l) * (if l = 0 then 1 else 0))
        = (\<Sum>l\<in>{..m}. if l = 0 then real c ^ m else 0)"
      by (rule sum.cong [OF refl]) simp
    also have "\<dots> = real c ^ m"
      by (simp add: sum.delta')
    finally show "a m * (\<Sum>l\<in>{..m}. real (m choose l) * real c ^ (m - l) * (if l = 0 then 1 else 0))
        = a m * real c ^ m"
      by simp
  qed
  also have "\<dots> = x ! c"
    using poly c by simp
  finally show ?thesis .
qed

text \<open>The output of \<open>process\<close> holds, at each index, what \<open>applyFilter\<close> returned there.\<close>

lemma savgolLoop_nth:
  "savgolLoop f x is out = Inr out' \<Longrightarrow>
   length out' = length out + length is
   \<and> take (length out) out' = out
   \<and> (\<forall>j<length is. applyFilter f x (is ! j) = Inr (out' ! (length out + j)))"
proof (induction "is" arbitrary: out)
  case Nil
  then show ?case by simp
next
  case (Cons i "is")
  from Cons.prems obtain v where v: "applyFilter f x i = Inr v"
    and r: "savgolLoop f x is (out @ [v]) = Inr out'"
    by (auto split: sum.splits)
  from Cons.IH [OF r]
  have l: "length out' = length out + 1 + length is"
    and t: "take (length out + 1) out' = out @ [v]"
    and n: "\<And>j. j < length is \<Longrightarrow> applyFilter f x (is ! j) = Inr (out' ! (length out + 1 + j))"
    by simp_all
  from t have "take (length out) (take (length out + 1) out') = take (length out) (out @ [v])"
    by simp
  then have t': "take (length out) out' = out"
    by (simp add: min_def)
  from t have "take (length out + 1) out' ! length out = (out @ [v]) ! length out"
    by simp
  then have v': "out' ! length out = v"
    by simp
  show ?case
  proof (intro conjI allI impI)
    show "length out' = length out + length (i # is)" using l by simp
    show "take (length out) out' = out" by (rule t')
    fix j assume j: "j < length (i # is)"
    show "applyFilter f x ((i # is) ! j) = Inr (out' ! (length out + j))"
    proof (cases j)
      case 0
      then show ?thesis using v v' by simp
    next
      case (Suc j')
      then show ?thesis using n [of j'] j by simp
    qed
  qed
qed


text \<open>
  In exact arithmetic the algorithm reproduces polynomials. For a Savitzky-Golay filter that
  the constructor on reals built from a window \<open>W\<close> and an order \<open>K\<close> (so \<open>W\<close> is odd,
  \<open>K < W\<close> and the solve succeeded), and a signal whose samples are the values at
  \<open>0, 1, 2, \<dots>\<close> of a polynomial with at most \<open>K + 1\<close> coefficients: at every index at least
  \<open>W div 2\<close> away from both ends the filter returns the sample itself, and \<open>process\<close>
  returns a signal holding it there. This says nothing about what the doubles of the program
  hold; the next section is about those.
\<close>

lemma exact_arithmetic_reproduction:
  assumes new: "SavgolFilter_new W K = Inr f"
    and la: "length a \<le> K + 1"
    and poly: "\<forall>n<length x. x ! n = (\<Sum>m<length a. a ! m * real n ^ m)"
    and c: "W div 2 \<le> c" "c + W div 2 < length x"
  shows "applyFilter f x c = Inr (x ! c)
    \<and> (\<exists>y. SavgolFilter_process f x = Inr y \<and> length y = length x \<and> y ! c = x ! c)"
proof -
  define f0 where "f0 = \<lparr>sg_windowSize = W, sg_polyOrder = K, sg_coefficients = []\<rparr>"
  from new have odd: "odd W" and cc: "calculateCoefficients f0 = Inr f"
    by (auto simp: SavgolFilter_new_def f0_def split: if_splits)
  define h where "h = W div 2"
  have W: "W = 2 * h + 1" using odd by (auto simp: h_def elim: oddE)
  have odd0: "odd (sg_windowSize f0)" using odd by (simp add: f0_def)
  have mom: "(\<Sum>i<2 * h + 1. sg_coefficients f ! i * real_of_int (int i - int h) ^ l)
        = (if l = 0 then 1 else 0)" if "l < length a" for l
  proof -
    have h0: "sg_windowSize f0 div 2 = h" by (simp add: f0_def h_def)
    have w0: "sg_windowSize f0 = 2 * h + 1" using W by (simp add: f0_def)
    have "l \<le> sg_polyOrder f0" using that la by (simp add: f0_def)
    from calculateCoefficients_moments [OF cc odd0 this, THEN conjunct2, THEN conjunct2,
        unfolded h0, unfolded w0]
    show ?thesis .
  qed
  have wf: "sg_windowSize f = 2 * h + 1"
    using calculateCoefficients_fields [OF cc] W by (simp add: f0_def)
  have ch: "h \<le> c" "c + h < length x" using c by (simp_all add: h_def)
  have "(\<Sum>i<2 * h + 1. sg_coefficients f ! i * x ! (c + i - h)) = x ! c"
    using poly mom ch by (intro interior_polynomial_value [where a = "\<lambda>m. a ! m" and L = "length a"]) auto
  with applyFilter_interior [OF wf ch]
  have 1: "applyFilter f x c = Inr (x ! c)" by simp
  have "sg_windowSize f div 2 < length x" using wf ch by simp
  from SavgolFilter_process_long_signal [OF this] obtain y
    where y: "SavgolFilter_process f x = Inr y" "length y = length x" by blast
  have ne: "x \<noteq> []" using ch by auto
  from y(1) ne have "savgolLoop f x [0..<length x] [] = Inr y"
    by (simp add: SavgolFilter_process_def)
  from savgolLoop_nth [OF this] ch have "applyFilter f x c = Inr (y ! c)"
    by simp
  with 1 have "y ! c = x ! c" by simp
  with 1 y show ?thesis by blast
qed

lemma exact_arithmetic_reproduction_example:
  "SavgolFilter_new 3 (Suc 0)
     = Inr \<lparr>sg_windowSize = 3, sg_polyOrder = Suc 0, sg_coefficients = [1 / 3, 1 / 3, 1 / 3]\<rparr>
   \<and> applyFilter
        \<lparr>sg_windowSize = 3, sg_polyOrder = Suc 0, sg_coefficients = [1 / 3, 1 / 3, 1 / 3]\<rparr>
        [1, 3, 5, 7] 2 = Inr 5
   \<and> (\<exists>y. SavgolFilter_process
              \<lparr>sg_windowSize = 3, sg_polyOrder = Suc 0, sg_coefficients = [1 / 3, 1 / 3, 1 / 3]\<rparr>
              [1, 3, 5, 7] = Inr y \<and> length y = 4 \<and> y ! 2 = 5)"
proof -
  let ?f = "\<lparr>sg_windowSize = 3, sg_polyOrder = Suc 0, sg_coefficients = [1 / 3, 1 / 3, 1 / 3]\<rparr>"
  have la: "length [1, 2 :: real] \<le> Suc 0 + 1" by simp
  have poly: "\<forall>n<length [1, 3, 5, 7 :: real].
      [1, 3, 5, 7] ! n = (\<Sum>m<length [1, 2 :: real]. [1, 2] ! m * real n ^ m)"
    by (auto simp: less_Suc_eq eval_nat_numeral)
  have c: "(3::nat) div 2 \<le> 2" "2 + (3::nat) div 2 < length [1, 3, 5, 7 :: real]" by simp_all
  have v: "[1, 3, 5, 7 :: real] ! 2 = 5" by simp
  have l: "length [1, 3, 5, 7 :: real] = 4" by simp
  from exact_arithmetic_reproduction [OF SavgolFilter_example_new la poly c]
  have a: "applyFilter ?f [1, 3, 5, 7] 2 = Inr ([1, 3, 5, 7] ! 2)"
    and b: "\<exists>y. SavgolFilter_process ?f [1, 3, 5, 7] = Inr y
          \<and> length y = length [1, 3, 5, 7 :: real] \<and> y ! 2 = [1, 3, 5, 7] ! 2"
    by blast+
  show ?thesis
  proof (intro conjI)
    show "SavgolFilter_new 3 (Suc 0) = Inr ?f" by (rule SavgolFilter_example_new)
    show "applyFilter ?f [1, 3, 5, 7] 2 = Inr 5" using a unfolding v .
    show "\<exists>y. SavgolFilter_process ?f [1, 3, 5, 7] = Inr y \<and> length y = 4 \<and> y ! 2 = 5"
      using b unfolding v l .
  qed
qed

section \<open>Savitzky-Golay on doubles: an overflow in the power sums\<close>

text \<open>An infinity or NaN among the operands stays one in the result.\<close>

lemma d_infinity_nonfinite: "\<not> d_isfinite (d_infinity s)"
  by (simp add: d_infinity_def)

lemma d_add_nonfinite:
  "\<not> d_isfinite a \<or> \<not> d_isfinite b \<Longrightarrow> \<not> d_isfinite (d_add fp a b)"
  by (cases a; cases b) (simp_all add: d_add_def)

lemma d_sub_nonfinite:
  "\<not> d_isfinite a \<or> \<not> d_isfinite b \<Longrightarrow> \<not> d_isfinite (d_sub fp a b)"
  by (cases a; cases b) (simp_all add: d_sub_def d_infinity_def)

lemma d_mul_nonfinite:
  "\<not> d_isfinite a \<or> \<not> d_isfinite b \<Longrightarrow> \<not> d_isfinite (d_mul fp a b)"
  by (cases a; cases b) (simp_all add: d_mul_def d_infinity_def)

lemma d_div_nonfinite: "\<not> d_isfinite a \<Longrightarrow> \<not> d_isfinite (d_div fp a b)"
  by (cases a; cases b) (simp_all add: d_div_def d_infinity_def)

lemma d_pow_overflow:
  assumes "2 ^ 1024 \<le> \<bar>real_of_int k ^ e\<bar>"
  shows "\<not> d_isfinite (d_pow fp k e)"
  unfolding d_pow_def using assms by (simp only: if_True d_infinity_nonfinite not_False_eq_True)

text \<open>The power sums: once the running sum is not finite, it stays so.\<close>

lemma fold_add_nonfinite:
  "\<not> d_isfinite acc \<Longrightarrow> \<not> d_isfinite (fold (\<lambda>k sum. d_add fp sum (g k)) ks acc)"
  by (induction ks arbitrary: acc) (simp_all add: d_add_nonfinite)

lemma momentMatrix_dbl_nth:
  assumes "p \<le> K" "q \<le> K"
  shows "momentMatrix_dbl fp h K ! p ! q
         = fold (\<lambda>k sum. d_add fp sum (d_pow fp k (p + q))) [- int h..int h] (Finite 0)"
  using assms by (simp add: momentMatrix_dbl_def del: upt_Suc)

lemma momentMatrix_dbl_square: "square_dbl (K + 1) (momentMatrix_dbl fp h K)"
  by (simp add: square_dbl_def momentMatrix_dbl_def del: upt_Suc)

lemma momentMatrix_dbl_overflow:
  assumes "p \<le> K" "q \<le> K" "2 ^ 1024 \<le> real h ^ (p + q)"
  shows "\<not> d_isfinite (momentMatrix_dbl fp h K ! p ! q)"
proof -
  have u: "[- int h..int h] = (- int h) # [- int h + 1..int h]"
    by (rule upto_rec1) simp
  have "\<bar>real_of_int (- int h) ^ (p + q)\<bar> = real h ^ (p + q)"
    by (simp add: power_abs)
  with assms(3) have "2 ^ 1024 \<le> \<bar>real_of_int (- int h) ^ (p + q)\<bar>"
    by (simp only:)
  then have "\<not> d_isfinite (d_add fp (Finite 0) (d_pow fp (- int h) (p + q)))"
    by (intro d_add_nonfinite disjI2 d_pow_overflow)
  then have "\<not> d_isfinite (fold (\<lambda>k sum. d_add fp sum (d_pow fp k (p + q)))
      [- int h + 1..int h] (d_add fp (Finite 0) (d_pow fp (- int h) (p + q))))"
    by (rule fold_add_nonfinite)
  then show ?thesis
    unfolding momentMatrix_dbl_nth [OF assms(1,2)] u by simp
qed

lemma two_spoilt_rowsI:
  assumes "p \<noteq> q" "p < n" "q < n"
    "\<not> d_isfinite (m ! p ! (n - 1))" "\<not> d_isfinite (m ! q ! (n - 1))"
  shows "two_spoilt_rows n m"
proof (cases "p < q")
  case True
  then show ?thesis using assms unfolding two_spoilt_rows_def by blast
next
  case False
  then have "q < p" using assms(1) by simp
  then show ?thesis using assms unfolding two_spoilt_rows_def by blast
qed

lemma momentMatrix_dbl_spoilt:
  assumes K: "1 \<le> K" and big: "2 ^ 1024 \<le> real h ^ (2 * K - 1)"
  shows "two_spoilt_rows (K + 1) (momentMatrix_dbl fp h K)"
proof -
  have h: "1 \<le> real h"
  proof (rule ccontr)
    assume "\<not> 1 \<le> real h"
    then have "h = 0" by simp
    with big K show False by (simp add: power_0_left)
  qed
  have "real h ^ (2 * K - 1) \<le> real h ^ (2 * K)"
    by (rule power_increasing [OF _ h]) simp
  with big have big2: "2 ^ 1024 \<le> real h ^ (K + K)"
    by (simp add: mult_2)
  have e: "K - 1 + K = 2 * K - 1" using K by simp
  have 1: "\<not> d_isfinite (momentMatrix_dbl fp h K ! (K - 1) ! K)"
    by (rule momentMatrix_dbl_overflow) (simp_all only: e big diff_le_self order_refl)
  have 2: "\<not> d_isfinite (momentMatrix_dbl fp h K ! K ! K)"
    by (rule momentMatrix_dbl_overflow) (simp_all only: big2 order_refl)
  show ?thesis
    by (rule two_spoilt_rowsI [of "K - 1" K]) (use K 1 2 in simp_all)
qed

text \<open>The forward pass keeps the two rows: a row exchange moves them, an elimination keeps
  what is not finite in the last column.\<close>

lemma fold_matrix_row_dbl:
  "k < length m \<Longrightarrow> i \<noteq> k \<Longrightarrow>
   fold (\<lambda>j m. m[k := (m ! k)[j := h (m ! k ! j) (m ! i ! j)]]) js m
   = m[k := fold (\<lambda>j row. row[j := h (row ! j) (m ! i ! j)]) js (m ! k)]"
proof (induction js arbitrary: m)
  case Nil
  then show ?case by simp
next
  case (Cons a js)
  let ?m1 = "m[k := (m ! k)[a := h (m ! k ! a) (m ! i ! a)]]"
  have 1: "k < length ?m1" using Cons.prems by simp
  have 2: "?m1 ! i = m ! i" using Cons.prems by simp
  have 3: "?m1 ! k = (m ! k)[a := h (m ! k ! a) (m ! i ! a)]" using Cons.prems by simp
  show ?case
    using Cons.IH [OF 1 Cons.prems(2)] by (simp add: 2 3)
qed

lemma eliminateRow_dbl_step:
  assumes sq: "square_dbl n m" and ik: "i < k" "k < n"
  shows "\<exists>m' r'. eliminateRow_dbl fp n i k (m, r) = (m', r') \<and> square_dbl n m'
    \<and> (\<forall>p<n. \<not> d_isfinite (m ! p ! (n - 1)) \<longrightarrow> \<not> d_isfinite (m' ! p ! (n - 1)))"
proof -
  define f where "f = d_div fp (m ! k ! i) (m ! i ! i)"
  define g where "g j v = d_sub fp v (d_mul fp f (m ! i ! j))" for j v
  define row where "row = fold (\<lambda>j row. row[j := g j (row ! j)]) [i..<n] (m ! k)"
  define m' where "m' = m[k := row]"
  have k: "k < length m" "i \<noteq> k" "length (m ! k) = n"
    using assms by (auto simp: square_dbl_def)
  have lm: "length m = n" and rows: "\<And>p. p < n \<Longrightarrow> length (m ! p) = n"
    using sq by (auto simp: square_dbl_def)
  have last: "n - 1 < length (m ! k)" "n - 1 \<in> set [i..<n]"
    using k ik by auto
  from fold_row_update [of "[i..<n]" "n - 1" "m ! k" g] last
  have lrow: "length row = n" and vrow: "row ! (n - 1) = g (n - 1) (m ! k ! (n - 1))"
    unfolding row_def using k(3) by simp_all
  have "eliminateRow_dbl fp n i k (m, r)
        = (fold (\<lambda>j ma. ma[k := (ma ! k)[j := d_sub fp (ma ! k ! j) (d_mul fp f (ma ! i ! j))]])
             [i..<n] m,
           r[k := d_sub fp (r ! k) (d_mul fp f (r ! i))])"
    unfolding eliminateRow_dbl_def f_def by (simp only: prod.case Let_def)
  also have "fold (\<lambda>j ma. ma[k := (ma ! k)[j := d_sub fp (ma ! k ! j) (d_mul fp f (ma ! i ! j))]])
             [i..<n] m = m'"
    unfolding m'_def row_def g_def
    by (rule fold_matrix_row_dbl [OF k(1,2), of "\<lambda>v x. d_sub fp v (d_mul fp f x)"])
  finally have e: "eliminateRow_dbl fp n i k (m, r)
        = (m', r[k := d_sub fp (r ! k) (d_mul fp f (r ! i))])" .
  have s: "square_dbl n m'"
    unfolding square_dbl_def
  proof (intro conjI allI impI)
    show "length m' = n" by (simp add: m'_def lm)
    fix p assume "p < n"
    then show "length (m' ! p) = n"
      using rows [of p] lm lrow by (cases "p = k") (simp_all add: m'_def)
  qed
  have keep: "\<not> d_isfinite (m' ! p ! (n - 1))"
    if p: "p < n" and b: "\<not> d_isfinite (m ! p ! (n - 1))" for p
  proof (cases "p = k")
    case True
    have "m' ! k ! (n - 1) = d_sub fp (m ! k ! (n - 1)) (d_mul fp f (m ! i ! (n - 1)))"
      using k(1) vrow by (simp add: m'_def g_def)
    moreover have "\<not> d_isfinite (d_sub fp (m ! k ! (n - 1)) (d_mul fp f (m ! i ! (n - 1))))"
      using b True by (intro d_sub_nonfinite disjI1) simp
    ultimately show ?thesis using True by simp
  next
    case False
    then show ?thesis using b by (simp add: m'_def)
  qed
  show ?thesis using e s keep by blast
qed

lemma eliminate_loop_dbl:
  assumes "square_dbl n m" "\<forall>k\<in>set ks. i < k \<and> k < n"
  shows "\<exists>m' r'. fold (eliminateRow_dbl fp n i) ks (m, r) = (m', r') \<and> square_dbl n m'
    \<and> (\<forall>p<n. \<not> d_isfinite (m ! p ! (n - 1)) \<longrightarrow> \<not> d_isfinite (m' ! p ! (n - 1)))"
  using assms
proof (induction ks arbitrary: m r)
  case Nil
  then show ?case by simp
next
  case (Cons k ks)
  then have ik: "i < k" "k < n" by simp_all
  from eliminateRow_dbl_step [OF Cons.prems(1) ik, of fp r]
  obtain m1 r1 where e: "eliminateRow_dbl fp n i k (m, r) = (m1, r1)"
    and sq1: "square_dbl n m1"
    and keep1: "\<And>p. p < n \<Longrightarrow> \<not> d_isfinite (m ! p ! (n - 1))
                  \<Longrightarrow> \<not> d_isfinite (m1 ! p ! (n - 1))"
    by blast
  have ks: "\<forall>k\<in>set ks. i < k \<and> k < n" using Cons.prems(2) by simp
  from Cons.IH [OF sq1 ks, of r1]
  obtain m2 r2 where f: "fold (eliminateRow_dbl fp n i) ks (m1, r1) = (m2, r2)"
    and sq2: "square_dbl n m2"
    and keep2: "\<And>p. p < n \<Longrightarrow> \<not> d_isfinite (m1 ! p ! (n - 1))
                  \<Longrightarrow> \<not> d_isfinite (m2 ! p ! (n - 1))"
    by blast
  have "fold (eliminateRow_dbl fp n i) (k # ks) (m, r) = (m2, r2)"
    by (simp add: e f)
  then show ?case using sq2 keep1 keep2 by blast
qed

lemma two_spoilt_rows_mono:
  assumes "two_spoilt_rows n m"
    "\<And>p. p < n \<Longrightarrow> \<not> d_isfinite (m ! p ! (n - 1)) \<Longrightarrow> \<not> d_isfinite (m' ! p ! (n - 1))"
  shows "two_spoilt_rows n m'"
proof -
  from assms(1) obtain p q where pq: "p < q" "q < n"
    "\<not> d_isfinite (m ! p ! (n - 1))" "\<not> d_isfinite (m ! q ! (n - 1))"
    unfolding two_spoilt_rows_def by blast
  then have "p < n" by simp
  from assms(2) [OF this pq(3)] assms(2) [OF pq(2) pq(4)] pq(1,2)
  show ?thesis unfolding two_spoilt_rows_def by blast
qed

lemma findMaxRow_dbl_bounds:
  assumes "i < n"
  shows "i \<le> findMaxRow_dbl m n i \<and> findMaxRow_dbl m n i < n"
proof -
  have "i \<le> a \<Longrightarrow> a < n \<Longrightarrow> \<forall>k\<in>set ks. i \<le> k \<and> k < n \<Longrightarrow>
      i \<le> fold (\<lambda>k maxRow. if d_less (d_abs (m ! maxRow ! i)) (d_abs (m ! k ! i))
                       then k else maxRow) ks a
      \<and> fold (\<lambda>k maxRow. if d_less (d_abs (m ! maxRow ! i)) (d_abs (m ! k ! i))
                       then k else maxRow) ks a < n"
    for ks a
    by (induction ks arbitrary: a) auto
  from this [of i "[i + 1..<n]"] assms show ?thesis
    by (simp add: findMaxRow_dbl_def)
qed

lemma swap_spoilt:
  assumes sq: "square_dbl n m" and i: "i < n" and p: "p < n" and two: "two_spoilt_rows n m"
  shows "square_dbl n (swapRows m i p) \<and> two_spoilt_rows n (swapRows m i p)"
proof -
  define s where "s x = (if x = i then p else if x = p then i else x)" for x
  have lm: "length m = n" and rows: "\<And>x. x < n \<Longrightarrow> length (m ! x) = n"
    using sq by (auto simp: square_dbl_def)
  have il: "i < length m" "p < length m" using i p lm by simp_all
  have at: "swapRows m i p ! s x = m ! x" if "x < n" for x
    using swapRows_nth [OF il] that by (auto simp: s_def)
  have sb: "s x < n" if "x < n" for x using that i p by (simp add: s_def)
  have ss: "s (s x) = x" for x by (simp add: s_def)
  have inj: "s x \<noteq> s y" if "x \<noteq> y" for x y
    using that ss by metis
  have 1: "square_dbl n (swapRows m i p)"
    unfolding square_dbl_def
  proof (intro conjI allI impI)
    show "length (swapRows m i p) = n" using swapRows_nth(1) [OF il] lm by simp
    fix x assume x: "x < n"
    from at [OF sb [OF x]] rows [OF sb [OF x]]
    show "length (swapRows m i p ! x) = n" by (simp add: ss)
  qed
  from two obtain a b where ab: "a < b" "b < n"
    "\<not> d_isfinite (m ! a ! (n - 1))" "\<not> d_isfinite (m ! b ! (n - 1))"
    unfolding two_spoilt_rows_def by blast
  then have an: "a < n" and ne: "a \<noteq> b" by simp_all
  have 2: "two_spoilt_rows n (swapRows m i p)"
    using ab(3,4)
    by (intro two_spoilt_rowsI [OF inj [OF ne] sb [OF an] sb [OF ab(2)]])
      (simp_all add: at an ab(2))
  show ?thesis using 1 2 by simp
qed

lemma forwardElimination_dbl_spoilt:
  assumes "forwardElimination_dbl fp n is (m, r) = Inr (m', r')"
    "square_dbl n m" "two_spoilt_rows n m" "\<forall>i\<in>set is. i < n"
  shows "square_dbl n m' \<and> two_spoilt_rows n m'"
  using assms
proof (induction "is" arbitrary: m r)
  case Nil
  then show ?case by simp
next
  case (Cons i "is")
  have i: "i < n" using Cons.prems(4) by simp
  define p where "p = findMaxRow_dbl m n i"
  define m1 where "m1 = (if p \<noteq> i then swapRows m i p else m)"
  define r1 where "r1 = (if p \<noteq> i then swapRows r i p else r)"
  have pb: "p < n" using findMaxRow_dbl_bounds [OF i, of m] by (simp add: p_def)
  have sq1: "square_dbl n m1" and two1: "two_spoilt_rows n m1"
    using swap_spoilt [OF Cons.prems(2) i pb Cons.prems(3)] Cons.prems(2,3)
    by (simp_all add: m1_def)
  have ks: "\<forall>k\<in>set [i + 1..<n]. i < k \<and> k < n" by simp
  from eliminate_loop_dbl [OF sq1 ks, of fp r1]
  obtain m2 r2 where f: "fold (eliminateRow_dbl fp n i) [i + 1..<n] (m1, r1) = (m2, r2)"
    and sq2: "square_dbl n m2"
    and keep: "\<And>x. x < n \<Longrightarrow> \<not> d_isfinite (m1 ! x ! (n - 1))
                  \<Longrightarrow> \<not> d_isfinite (m2 ! x ! (n - 1))"
    by blast
  have two2: "two_spoilt_rows n m2"
    by (rule two_spoilt_rows_mono [OF two1 keep])
  have step: "forwardElimination_dbl fp n (i # is) (m, r)
      = (if d_less (d_abs (m1 ! i ! i)) (f_1e_12 fp) then Inl Runtime_error
         else forwardElimination_dbl fp n is (m2, r2))"
    by (simp only: forwardElimination_dbl.simps prod.case Let_def p_def [symmetric]
        m1_def [symmetric] r1_def [symmetric] f)
  with Cons.prems(1) have "forwardElimination_dbl fp n is (m2, r2) = Inr (m', r')"
    by (simp split: if_splits)
  from Cons.IH [OF this sq2 two2] Cons.prems(4) show ?case by simp
qed

lemma forwardElimination_dbl_error:
  "forwardElimination_dbl fp n is s = Inl e \<Longrightarrow> e = Runtime_error"
proof (induction "is" arbitrary: s)
  case Nil
  then show ?case by simp
next
  case (Cons i "is")
  obtain m r where s: "s = (m, r)" by (cases s)
  from Cons.prems Cons.IH show ?case
    by (simp add: s Let_def split: if_splits)
qed

text \<open>The back substitution turns a row that is not finite in the last column into a
  component of the solution that is not finite.\<close>

lemma fold_component_update:
  "length (fold (\<lambda>j s. s[i := g j s]) js s) = length s
   \<and> (x \<noteq> i \<longrightarrow> fold (\<lambda>j s. s[i := g j s]) js s ! x = s ! x)"
  by (induction js arbitrary: s) simp_all

lemma backSubstitution_dbl_spoilt:
  assumes sq: "square_dbl n m" and two: "two_spoilt_rows n m"
  shows "\<exists>p<n. length (backSubstitution_dbl fp n m r) = n
    \<and> \<not> d_isfinite (backSubstitution_dbl fp n m r ! p)"
proof -
  from two obtain p q where pq: "p < q" "q < n" and bad: "\<not> d_isfinite (m ! p ! (n - 1))"
    unfolding two_spoilt_rows_def by blast
  then have p: "Suc p < n" by simp
  define inner where
    "inner i = (\<lambda>j s. s[i := d_sub fp (s ! i) (d_mul fp (m ! i ! j) (s ! j))])" for i
  define step where
    "step = (\<lambda>i solution.
             let solution = solution[i := r ! i];
                 solution = fold (\<lambda>j s. s[i := d_sub fp (s ! i) (d_mul fp (m ! i ! j) (s ! j))])
                              [i + 1..<n] solution
             in solution[i := d_div fp (solution ! i) (m ! i ! i)])"
  have bs: "backSubstitution_dbl fp n m r = fold step (rev [0..<n]) (replicate n (Finite 0))"
    unfolding backSubstitution_dbl_def step_def ..
  have step_eq: "step i s
      = (fold (inner i) [i + 1..<n] (s[i := r ! i]))
          [i := d_div fp (fold (inner i) [i + 1..<n] (s[i := r ! i]) ! i) (m ! i ! i)]" for i s
    by (simp add: step_def inner_def Let_def)
  have inner_len: "length (fold (inner i) js s) = length s" for i js s
    using fold_component_update [of i "\<lambda>j s. d_sub fp (s ! i) (d_mul fp (m ! i ! j) (s ! j))" js s]
    by (simp add: inner_def)
  have inner_other: "fold (inner i) js s ! x = s ! x" if "x \<noteq> i" for i js s x
    using fold_component_update [of i "\<lambda>j s. d_sub fp (s ! i) (d_mul fp (m ! i ! j) (s ! j))" js s x]
      that by (simp add: inner_def)
  have step_len: "length (step i s) = length s" for i s
    by (simp add: step_eq inner_len)
  have step_other: "step i s ! x = s ! x" if "x \<noteq> i" for i s x
    using that by (simp add: step_eq inner_other)
  have steps_len: "length (fold step is s) = length s" for "is" s
    by (induction "is" arbitrary: s) (simp_all add: step_len)
  have steps_other: "fold step is s ! x = s ! x" if "x \<notin> set is" for "is" s x
    using that by (induction "is" arbitrary: s) (simp_all add: step_other)
  have step_bad: "\<not> d_isfinite (step p s ! p)" if l: "length s = n" for s
  proof -
    have u: "[p + 1..<n] = [p + 1..<n - 1] @ [n - 1]"
      using p upt_Suc_append [of "p + 1" "n - 1"] by simp
    define s1 where "s1 = fold (inner p) [p + 1..<n - 1] (s[p := r ! p])"
    have l1: "length s1 = n" by (simp add: s1_def inner_len l)
    have "fold (inner p) [p + 1..<n] (s[p := r ! p]) = inner p (n - 1) s1"
      unfolding u s1_def by simp
    also have "\<dots> ! p = d_sub fp (s1 ! p) (d_mul fp (m ! p ! (n - 1)) (s1 ! (n - 1)))"
      using p l1 by (simp add: inner_def)
    finally have v: "fold (inner p) [p + 1..<n] (s[p := r ! p]) ! p
        = d_sub fp (s1 ! p) (d_mul fp (m ! p ! (n - 1)) (s1 ! (n - 1)))" .
    have "\<not> d_isfinite (d_sub fp (s1 ! p) (d_mul fp (m ! p ! (n - 1)) (s1 ! (n - 1))))"
      using bad by (intro d_sub_nonfinite disjI2 d_mul_nonfinite disjI1)
    then have "\<not> d_isfinite (d_div fp (fold (inner p) [p + 1..<n] (s[p := r ! p]) ! p)
        (m ! p ! p))"
      unfolding v by (rule d_div_nonfinite)
    moreover have "p < length (fold (inner p) [p + 1..<n] (s[p := r ! p]))"
      using p l by (simp add: inner_len)
    ultimately show ?thesis by (simp add: step_eq)
  qed
  have split: "rev [0..<n] = rev [Suc p..<n] @ p # rev [0..<p]"
  proof -
    have "[0..<n] = [0..<p] @ [p..<n]"
      using upt_add_eq_append [of 0 p "n - p"] p by simp
    moreover have "[p..<n] = p # [Suc p..<n]"
      using p by (simp add: upt_conv_Cons)
    ultimately show ?thesis by simp
  qed
  define s0 where "s0 = fold step (rev [Suc p..<n]) (replicate n (Finite 0))"
  have l0: "length s0 = n" by (simp add: s0_def steps_len)
  have res: "backSubstitution_dbl fp n m r = fold step (rev [0..<p]) (step p s0)"
    unfolding bs split s0_def by simp
  have "backSubstitution_dbl fp n m r ! p = step p s0 ! p"
    unfolding res by (rule steps_other) simp
  moreover have "length (backSubstitution_dbl fp n m r) = n"
    unfolding res by (simp add: steps_len step_len l0)
  ultimately show ?thesis
    using step_bad [OF l0] p by (intro exI [of _ p]) simp
qed

lemma gaussElimination_dbl_spoilt:
  assumes sq: "square_dbl n m" and two: "two_spoilt_rows n m"
  shows "case gaussElimination_dbl fp m r of
           Inl e \<Rightarrow> e = Runtime_error
         | Inr x \<Rightarrow> length x = n \<and> (\<exists>p<n. \<not> d_isfinite (x ! p))"
proof -
  have n: "length m = n" using sq by (simp add: square_dbl_def)
  show ?thesis
  proof (cases "forwardElimination_dbl fp n [0..<n] (m, r)")
    case (Inl e)
    then show ?thesis
      using forwardElimination_dbl_error [OF Inl]
      by (simp add: gaussElimination_dbl_def n)
  next
    case (Inr s)
    obtain m' r' where s: "s = (m', r')" by (cases s)
    from forwardElimination_dbl_spoilt [OF Inr [unfolded s] sq two]
    have "square_dbl n m'" "two_spoilt_rows n m'" by simp_all
    from backSubstitution_dbl_spoilt [OF this, of fp r'] show ?thesis
      by (auto simp: gaussElimination_dbl_def n Inr s)
  qed
qed

text \<open>One component that is not finite spoils every tap, and one tap spoils every output.\<close>

lemma fold_tap_nonfinite:
  "\<not> d_isfinite acc \<or> p \<in> set js \<Longrightarrow> \<not> d_isfinite (c ! p) \<Longrightarrow>
   \<not> d_isfinite (fold (\<lambda>j coeff. d_add fp coeff (d_mul fp (c ! j) (g j))) js acc)"
proof (induction js arbitrary: acc)
  case Nil
  then show ?case by simp
next
  case (Cons a js)
  have "\<not> d_isfinite (d_add fp acc (d_mul fp (c ! a) (g a))) \<or> p \<in> set js"
  proof (cases "\<not> d_isfinite acc \<or> p = a")
    case True
    then have "\<not> d_isfinite acc \<or> \<not> d_isfinite (d_mul fp (c ! a) (g a))"
      using Cons.prems(2) d_mul_nonfinite [of "c ! a" "g a" fp] by auto
    then show ?thesis using d_add_nonfinite by blast
  next
    case False
    then show ?thesis using Cons.prems(1) by simp
  qed
  from Cons.IH [OF this Cons.prems(2)] show ?case by simp
qed

lemma SavgolFilter_new_dbl_overflow:
  assumes W: "odd W" "K < W" and K: "1 \<le> K" and big: "2 ^ 1024 \<le> real (W div 2) ^ (2 * K - 1)"
  shows "case SavgolFilter_new_dbl fp W K of
           Inl e \<Rightarrow> e = Runtime_error
         | Inr f \<Rightarrow> sd_windowSize f = W \<and> length (sd_coefficients f) = W
                    \<and> list_all (\<lambda>c. \<not> d_isfinite c) (sd_coefficients f)"
proof -
  define M where "M = momentMatrix_dbl fp (W div 2) K"
  define rhs where "rhs = (replicate (K + 1) (Finite 0))[0 := Finite 1]"
  define f0 where "f0 = \<lparr>sd_windowSize = W, sd_polyOrder = K, sd_coefficients = []\<rparr>"
  have ok: "\<not> (W = 0 \<or> W mod 2 = 0)" "\<not> K \<ge> W"
    using W by (auto simp: odd_iff_mod_2_eq_one)
  have new: "SavgolFilter_new_dbl fp W K = calculateCoefficients_dbl fp f0"
    using ok by (simp add: SavgolFilter_new_dbl_def f0_def)
  have cc: "calculateCoefficients_dbl fp f0
      = (case gaussElimination_dbl fp M rhs of
           Inl e \<Rightarrow> Inl e
         | Inr polyCoeffs \<Rightarrow>
             Inr (f0\<lparr>sd_coefficients :=
                     map (\<lambda>i. fold (\<lambda>j coeff. d_add fp coeff
                                     (d_mul fp (polyCoeffs ! j)
                                        (d_pow fp (int i - int (W div 2)) j)))
                                    [0..<K + 1] (Finite 0))
                       [0..<W]\<rparr>))"
    by (simp add: calculateCoefficients_dbl_def f0_def M_def rhs_def Let_def
        cong: sum.case_cong del: upt_Suc)
  from gaussElimination_dbl_spoilt [OF momentMatrix_dbl_square
      momentMatrix_dbl_spoilt [OF K big], of fp fp rhs]
  have g: "case gaussElimination_dbl fp M rhs of
           Inl e \<Rightarrow> e = Runtime_error
         | Inr x \<Rightarrow> length x = K + 1 \<and> (\<exists>p<K + 1. \<not> d_isfinite (x ! p))"
    by (simp only: M_def)
  show ?thesis
  proof (cases "gaussElimination_dbl fp M rhs")
    case (Inl e)
    then show ?thesis using g by (simp add: new cc)
  next
    case (Inr x)
    with g obtain p where p: "p < K + 1" "\<not> d_isfinite (x ! p)" by auto
    have tap: "\<not> d_isfinite (fold (\<lambda>j coeff. d_add fp coeff
                 (d_mul fp (x ! j) (d_pow fp (int i - int (W div 2)) j))) [0..<K + 1] (Finite 0))"
      for i
      by (rule fold_tap_nonfinite [OF _ p(2)]) (use p(1) in auto)
    have "SavgolFilter_new_dbl fp W K
        = Inr (f0\<lparr>sd_coefficients :=
                     map (\<lambda>i. fold (\<lambda>j coeff. d_add fp coeff
                                     (d_mul fp (x ! j) (d_pow fp (int i - int (W div 2)) j)))
                                    [0..<K + 1] (Finite 0))
                       [0..<W]\<rparr>)"
      by (simp only: new cc Inr sum.case)
    then show ?thesis
      using tap by (simp add: f0_def list_all_iff del: upt_Suc)
  qed
qed

lemma getReflectedValue_dbl_error:
  "getReflectedValue_dbl input index = Inl e \<Longrightarrow> e = Out_of_bounds"
  by (auto simp: getReflectedValue_dbl_def readAt_dbl_def Let_def split: if_splits)

lemma applyFilterLoop_dbl_result:
  assumes "\<forall>i\<in>set is. \<not> d_isfinite (sd_coefficients f ! i)" "\<not> d_isfinite r \<or> is \<noteq> []"
  shows "case applyFilterLoop_dbl fp f input c is r of
           Inl e \<Rightarrow> e = Out_of_bounds
         | Inr v \<Rightarrow> \<not> d_isfinite v"
  using assms
proof (induction "is" arbitrary: r)
  case Nil
  then show ?case by simp
next
  case (Cons i "is")
  show ?case
  proof (cases "getReflectedValue_dbl input (int c - int (sd_windowSize f div 2) + int i)")
    case (Inl e)
    then show ?thesis using getReflectedValue_dbl_error [OF Inl] by (simp add: Let_def)
  next
    case (Inr v)
    have "\<not> d_isfinite (d_mul fp (sd_coefficients f ! i) v)"
      using Cons.prems(1) by (intro d_mul_nonfinite disjI1) simp
    then have "\<not> d_isfinite (d_add fp r (d_mul fp (sd_coefficients f ! i) v))"
      by (intro d_add_nonfinite disjI2)
    from Cons.IH [of "d_add fp r (d_mul fp (sd_coefficients f ! i) v)"] this Cons.prems(1)
    show ?thesis by (simp add: Inr Let_def)
  qed
qed

lemma savgolLoop_dbl_result:
  assumes co: "length (sd_coefficients f) = sd_windowSize f" "0 < sd_windowSize f"
    "list_all (\<lambda>c. \<not> d_isfinite c) (sd_coefficients f)"
    and out: "list_all (\<lambda>y. \<not> d_isfinite y) out"
  shows "case savgolLoop_dbl fp f input js out of
           Inl e \<Rightarrow> e = Out_of_bounds
         | Inr out' \<Rightarrow> length out' = length out + length js
                       \<and> list_all (\<lambda>y. \<not> d_isfinite y) out'"
  using out
proof (induction js arbitrary: out)
  case Nil
  then show ?case by simp
next
  case (Cons i js)
  have a: "\<forall>i\<in>set [0..<sd_windowSize f]. \<not> d_isfinite (sd_coefficients f ! i)"
    using co(1,3) by (simp add: list_all_length)
  have b: "\<not> d_isfinite (Finite 0) \<or> [0..<sd_windowSize f] \<noteq> []"
    using co(2) by simp
  from applyFilterLoop_dbl_result [OF a b, of fp input i]
  have r: "case applyFilter_dbl fp f input i of
           Inl e \<Rightarrow> e = Out_of_bounds
         | Inr v \<Rightarrow> \<not> d_isfinite v"
    by (simp add: applyFilter_dbl_def)
  show ?case
  proof (cases "applyFilter_dbl fp f input i")
    case (Inl e)
    then show ?thesis using r by simp
  next
    case (Inr v)
    then have "list_all (\<lambda>y. \<not> d_isfinite y) (out @ [v])"
      using r Cons.prems by simp
    from Cons.IH [OF this] show ?thesis by (simp add: Inr split: sum.splits)
  qed
qed

lemma SavgolFilter_process_dbl_result:
  assumes "length (sd_coefficients f) = sd_windowSize f" "0 < sd_windowSize f"
    "list_all (\<lambda>c. \<not> d_isfinite c) (sd_coefficients f)"
  shows "case SavgolFilter_process_dbl fp f input of
           Inl e \<Rightarrow> e = Out_of_bounds
         | Inr output \<Rightarrow> length output = length input
                        \<and> list_all (\<lambda>y. \<not> d_isfinite y) output"
  using savgolLoop_dbl_result
    [where out = "[]" and fp = fp and input = input and js = "[0..<length input]", OF assms]
  by (simp add: SavgolFilter_process_dbl_def split: sum.splits)

text \<open>A signal longer than the half-window is read in bounds, as on the reals.\<close>

lemma getReflectedValue_dbl_in_range:
  assumes "input \<noteq> []" "- int (length input) < index"
  shows "\<exists>v. getReflectedValue_dbl input index = Inr v"
  using assms by (auto simp: getReflectedValue_dbl_def readAt_dbl_def Let_def)

lemma applyFilterLoop_dbl_ok:
  assumes "input \<noteq> []" "sd_windowSize f div 2 < length input"
  shows "\<exists>v. applyFilterLoop_dbl fp f input c is r = Inr v"
proof (induction "is" arbitrary: r)
  case Nil
  then show ?case by simp
next
  case (Cons i "is")
  have "- int (length input) < int c - int (sd_windowSize f div 2) + int i"
    using assms(2) by linarith
  from getReflectedValue_dbl_in_range [OF assms(1) this]
  obtain v where v: "getReflectedValue_dbl input (int c - int (sd_windowSize f div 2) + int i)
                     = Inr v"
    by blast
  show ?case using Cons.IH by (simp add: v Let_def)
qed

lemma savgolLoop_dbl_ok:
  assumes "input \<noteq> []" "sd_windowSize f div 2 < length input"
  shows "\<exists>out'. savgolLoop_dbl fp f input is out = Inr out'"
proof (induction "is" arbitrary: out)
  case Nil
  then show ?case by simp
next
  case (Cons i "is")
  from applyFilterLoop_dbl_ok [OF assms, of fp i "[0..<sd_windowSize f]" "Finite 0"]
  obtain v where v: "applyFilter_dbl fp f input i = Inr v"
    by (auto simp: applyFilter_dbl_def)
  from Cons.IH [of "out @ [v]"] show ?case by (auto simp: v)
qed

lemma SavgolFilter_process_dbl_long_signal:
  assumes "sd_windowSize f div 2 < length input"
  shows "\<exists>out. SavgolFilter_process_dbl fp f input = Inr out"
proof -
  have ne: "input \<noteq> []" using assms by auto
  from savgolLoop_dbl_ok [OF ne assms, of fp "[0..<length input]" "[]"]
  show ?thesis using ne by (simp add: SavgolFilter_process_dbl_def)
qed

text \<open>
  Claim C5, at a failing input. Window 95 and order 93 are a valid configuration. The power
  sums of the exponents 185 and 186 start with \<open>pow(-47, 185)\<close> and \<open>pow(-47, 186)\<close>, which
  are above every finite double, so two rows of the matrix hold an infinity or NaN in the last
  column. Whatever the finite operations round to, the constructor then either throws the
  singular-matrix error or stores 95 taps none of which is a finite number, and then no sample
  that \<open>process\<close> returns is a finite number: on the constant signal of 100 ones the output
  has 100 samples, each an infinity or NaN, where reproduction asks for 1 at the interior
  indices.
\<close>

theorem savgol_overflow_not_reproduced:
  "case SavgolFilter_new_dbl fp 95 93 of
     Inl e \<Rightarrow> e = Runtime_error
   | Inr f \<Rightarrow>
       length (sd_coefficients f) = 95
       \<and> list_all (\<lambda>c. \<not> d_isfinite c) (sd_coefficients f)
       \<and> (case SavgolFilter_process_dbl fp f input of
            Inl e \<Rightarrow> e = Out_of_bounds
          | Inr output \<Rightarrow> length output = length input
                         \<and> list_all (\<lambda>y. \<not> d_isfinite y) output)
       \<and> (\<exists>output. SavgolFilter_process_dbl fp f (replicate 100 (Finite 1)) = Inr output
            \<and> length output = 100 \<and> list_all (\<lambda>y. \<not> d_isfinite y) output)"
proof -
  have big: "(2::real) ^ 1024 \<le> real (95 div 2) ^ (2 * 93 - 1)"
    by simp
  have c: "case SavgolFilter_new_dbl fp 95 93 of
           Inl e \<Rightarrow> e = Runtime_error
         | Inr f \<Rightarrow> sd_windowSize f = 95 \<and> length (sd_coefficients f) = 95
                    \<and> list_all (\<lambda>c. \<not> d_isfinite c) (sd_coefficients f)"
    by (rule SavgolFilter_new_dbl_overflow [OF _ _ _ big]) simp_all
  show ?thesis
  proof (cases "SavgolFilter_new_dbl fp 95 93")
    case (Inl e)
    then show ?thesis using c by simp
  next
    case (Inr f)
    with c have f: "sd_windowSize f = 95" "length (sd_coefficients f) = 95"
      "list_all (\<lambda>c. \<not> d_isfinite c) (sd_coefficients f)"
      by simp_all
    have co: "length (sd_coefficients f) = sd_windowSize f" "0 < sd_windowSize f"
      using f by simp_all
    note res = SavgolFilter_process_dbl_result [where fp = fp, OF co f(3)]
    have long: "sd_windowSize f div 2 < length (replicate 100 (Finite 1))"
      by (simp add: f)
    from SavgolFilter_process_dbl_long_signal [OF long, of fp]
    obtain out where out: "SavgolFilter_process_dbl fp f (replicate 100 (Finite 1)) = Inr out"
      by blast
    from res [of "replicate 100 (Finite 1)"]
    have "length out = 100 \<and> list_all (\<lambda>y. \<not> d_isfinite y) out"
      by (simp add: out)
    with out res [of input] f show ?thesis
      by (simp add: Inr)
  qed
qed

end
